theory Spec2Isabelle
  imports Complex_Main "HOL-Library.Sublist" "HOL-Library.AList"
begin

section \<open>Characters and Python string methods\<close>

text \<open>
  A Python \<^verbatim>\<open>str\<close> is a sequence of Unicode code points.  It is modelled as the list of its
  code points, which are integers as \<^verbatim>\<open>ord\<close> gives them, so \<^const>\<open>length\<close> is Python's \<^verbatim>\<open>len\<close>.  The text
  of the program itself (patterns, dictionary keys, string literals) is ASCII; it is written
  as a \<^typ>\<open>string\<close> and \<open>ascii\<close> gives its code points.
\<close>

type_synonym str = "int list"

definition ascii :: "string \<Rightarrow> str" where
  "ascii s = map of_char s"

definition newline :: char where
  "newline = CHR 0x0A"

text \<open>
  What Python does with ASCII characters is modelled in full.  Beyond ASCII, two small sets
  are modelled in full as well: the whitespace of \<^verbatim>\<open>str.isspace\<close>, \<^verbatim>\<open>str.strip\<close>,
  \<^verbatim>\<open>str.split\<close> and \<^verbatim>\<open>\s\<close> (29 code points in all), and the four code points that equal an
  ASCII letter when \<^verbatim>\<open>re.IGNORECASE\<close> ignores case.  The large tables of the Unicode
  database are not part of the repository and are a parameter of the model, the record
  \<open>unicode\<close>: which code points are decimal digits (\<^verbatim>\<open>\d\<close>), digits (\<^verbatim>\<open>str.isdigit\<close>),
  alphanumeric (\<^verbatim>\<open>\w\<close> and \<^verbatim>\<open>\b\<close>) or uppercase (\<^verbatim>\<open>str.isupper\<close>), and what
  \<^verbatim>\<open>str.lower\<close> and \<^verbatim>\<open>str.capitalize\<close> return for a string that is not all ASCII.  The
  tables are consulted only for code points that are neither ASCII nor whitespace: a
  whitespace character of Python is in none of the four classes.
\<close>

record unicode =
  isdecimal :: "int \<Rightarrow> bool"
  isdigit :: "int \<Rightarrow> bool"
  isalnum :: "int \<Rightarrow> bool"
  isupper :: "int \<Rightarrow> bool"
  lower_str :: "str \<Rightarrow> str"
  capitalize_str :: "str \<Rightarrow> str"

text \<open>
  Python's whitespace: tab, LF, VT, FF, CR, the separators 28 to 31, space, NEL, the
  no-break space, and the space separators of the general punctuation and CJK blocks.
\<close>

definition is_space :: "int \<Rightarrow> bool" where
  "is_space c = (c \<in> set [0x09, 0x0A, 0x0B, 0x0C, 0x0D, 0x1C, 0x1D, 0x1E, 0x1F, 0x20, 0x85, 0xA0,
                            0x1680, 0x2000, 0x2001, 0x2002, 0x2003, 0x2004, 0x2005, 0x2006,
                            0x2007, 0x2008, 0x2009, 0x200A, 0x2028, 0x2029, 0x202F, 0x205F,
                            0x3000])"

definition in_range :: "int \<Rightarrow> int \<Rightarrow> int \<Rightarrow> bool" where
  "in_range a b c = (a \<le> c \<and> c \<le> b)"

text \<open>\<^verbatim>\<open>\d\<close>, \<^verbatim>\<open>str.isdigit\<close>, \<^verbatim>\<open>str.isupper\<close>, and the word characters of \<^verbatim>\<open>\w\<close> and \<^verbatim>\<open>\b\<close>.\<close>

definition is_decimal :: "unicode \<Rightarrow> int \<Rightarrow> bool" where
  "is_decimal u c = (if c < 128 then in_range 0x30 0x39 c else \<not> is_space c \<and> isdecimal u c)"

definition is_digit :: "unicode \<Rightarrow> int \<Rightarrow> bool" where
  "is_digit u c = (if c < 128 then in_range 0x30 0x39 c else \<not> is_space c \<and> isdigit u c)"

definition is_upper :: "unicode \<Rightarrow> int \<Rightarrow> bool" where
  "is_upper u c = (if c < 128 then in_range 0x41 0x5A c else \<not> is_space c \<and> isupper u c)"

definition is_word :: "unicode \<Rightarrow> int \<Rightarrow> bool" where
  "is_word u c =
     (if c < 128
      then in_range 0x41 0x5A c \<or> in_range 0x61 0x7A c \<or> in_range 0x30 0x39 c \<or> c = 0x5F
      else \<not> is_space c \<and> isalnum u c)"

definition ascii_lower :: "int \<Rightarrow> int" where
  "ascii_lower c = (if in_range 0x41 0x5A c then c + 32 else c)"

definition ascii_upper :: "int \<Rightarrow> int" where
  "ascii_upper c = (if in_range 0x61 0x7A c then c - 32 else c)"

text \<open>\<^verbatim>\<open>str.lower()\<close>, \<^verbatim>\<open>str.capitalize()\<close>, \<^verbatim>\<open>str.strip()\<close>.\<close>

definition lower :: "unicode \<Rightarrow> str \<Rightarrow> str" where
  "lower u s = (if list_all (\<lambda>c. c < 128) s then map ascii_lower s else lower_str u s)"

definition capitalize :: "unicode \<Rightarrow> str \<Rightarrow> str" where
  "capitalize u s =
     (if list_all (\<lambda>c. c < 128) s
      then (case s of [] \<Rightarrow> [] | c # cs \<Rightarrow> ascii_upper c # map ascii_lower cs)
      else capitalize_str u s)"

definition strip :: "str \<Rightarrow> str" where
  "strip s = rev (dropWhile is_space (rev (dropWhile is_space s)))"

text \<open>\<^verbatim>\<open>str.split()\<close> with no argument: the maximal runs of non-whitespace characters.\<close>

fun split_acc :: "str \<Rightarrow> str \<Rightarrow> str list" where
  "split_acc cur [] = (if cur = [] then [] else [cur])"
| "split_acc cur (c # cs) =
     (if is_space c then (if cur = [] then split_acc [] cs else cur # split_acc [] cs)
      else split_acc (cur @ [c]) cs)"

definition split :: "str \<Rightarrow> str list" where
  "split s = split_acc [] s"

text \<open>\<^verbatim>\<open>str.split(sep)\<close> for a one-character separator: empty pieces are kept.\<close>

fun split_on_acc :: "int \<Rightarrow> str \<Rightarrow> str \<Rightarrow> str list" where
  "split_on_acc sep cur [] = [cur]"
| "split_on_acc sep cur (c # cs) =
     (if c = sep then cur # split_on_acc sep [] cs else split_on_acc sep (cur @ [c]) cs)"

definition split_on :: "char \<Rightarrow> str \<Rightarrow> str list" where
  "split_on sep s = split_on_acc (of_char sep) [] s"

text \<open>\<^verbatim>\<open>sep.join(words)\<close> and the substring test \<^verbatim>\<open>k in s\<close>.\<close>

fun join :: "str \<Rightarrow> str list \<Rightarrow> str" where
  "join sep [] = []"
| "join sep [w] = w"
| "join sep (w # ws) = w @ sep @ join sep ws"

fun contains :: "str \<Rightarrow> str \<Rightarrow> bool" where
  "contains [] k = (k = [])"
| "contains (c # cs) k = (prefix k (c # cs) \<or> contains cs k)"

section \<open>Regular expressions: the patterns of the parser as syntax trees\<close>

text \<open>
  The parser uses Python's \<^verbatim>\<open>re\<close> module.  A pattern is modelled by its syntax tree, and
  matching by the list of all ways the backtracking matcher can succeed, in the order in which
  the matcher tries them: the first element is the match Python reports.
\<close>

datatype citem = CChar char | CCode int | CRange char char | CDigit | CSpace

datatype re =
    Eps
  | Lit char
  | Cls bool "citem list"
  | Bol
  | Wordb
  | Cat re re
  | Alt re re
  | Rep nat "nat option" bool re
  | Grp nat re

text \<open>
  \<open>Cls neg items\<close> is a character class, negated when \<open>neg\<close> holds, and \<open>CCode n\<close> is a
  member of a class that is not ASCII, given by its code point and matched by equality (the
  program has one, the en dash, which has no other case); \<open>Bol\<close> is \<^verbatim>\<open>^\<close> and
  \<open>Wordb\<close> is \<^verbatim>\<open>\b\<close>; \<open>Rep lo hi greedy r\<close> repeats \<open>r\<close> at least \<open>lo\<close> and at most
  \<open>hi\<close> times, greedily or lazily; \<open>Grp n r\<close> is the capturing group number \<open>n\<close>.
\<close>

record flags =
  ignorecase :: bool
  multiline :: bool

definition no_flags :: flags where
  "no_flags = \<lparr>ignorecase = False, multiline = False\<rparr>"

definition IGNORECASE :: flags where
  "IGNORECASE = \<lparr>ignorecase = True, multiline = False\<rparr>"

definition MULTILINE :: flags where
  "MULTILINE = \<lparr>ignorecase = False, multiline = True\<rparr>"

fun cat :: "re list \<Rightarrow> re" where
  "cat [] = Eps"
| "cat [r] = r"
| "cat (r # rs) = Cat r (cat rs)"

fun alts :: "re list \<Rightarrow> re" where
  "alts [] = Eps"
| "alts [r] = r"
| "alts (r # rs) = Alt r (alts rs)"

definition lits :: "string \<Rightarrow> re" where
  "lits s = cat (map Lit s)"

definition Star :: "re \<Rightarrow> re" where "Star r = Rep 0 None True r"
definition Plus :: "re \<Rightarrow> re" where "Plus r = Rep 1 None True r"
definition Opt :: "re \<Rightarrow> re" where "Opt r = Rep 0 (Some 1) True r"
definition StarLazy :: "re \<Rightarrow> re" where "StarLazy r = Rep 0 None False r"
definition PlusLazy :: "re \<Rightarrow> re" where "PlusLazy r = Rep 1 None False r"
definition Times :: "nat \<Rightarrow> re \<Rightarrow> re" where "Times n r = Rep n (Some n) True r"

definition Digit :: re where "Digit = Cls False [CDigit]"
definition Space :: re where "Space = Cls False [CSpace]"
definition NotNL :: re where "NotNL = Cls True [CChar newline]"

fun count_groups :: "re \<Rightarrow> nat" where
  "count_groups (Cat a b) = count_groups a + count_groups b"
| "count_groups (Alt a b) = count_groups a + count_groups b"
| "count_groups (Rep lo hi g r) = count_groups r"
| "count_groups (Grp n r) = Suc (count_groups r)"
| "count_groups _ = 0"

subsection \<open>The backtracking matcher\<close>

record mstate =
  prev :: "int option"
  rest :: str
  grps :: "(nat \<times> str) list"

text \<open>
  A matcher state: the character before the current position (none at the start of the
  text), the text from the current position on, and the captures made so far, newest first.
\<close>

text \<open>
  The ASCII letters that a code point equals when case is ignored: an ASCII character has
  its two cases; the dotted capital I (U+0130) and the dotless i (U+0131) equal \<^verbatim>\<open>i\<close>, the
  long s (U+017F) equals \<^verbatim>\<open>s\<close>, and the Kelvin sign (U+212A) equals \<^verbatim>\<open>k\<close>; no other code
  point equals an ASCII character.
\<close>

definition caseless :: "int \<Rightarrow> int list" where
  "caseless x =
     (if x < 128 then [ascii_lower x, ascii_upper x]
      else if x = 0x130 \<or> x = 0x131 then [0x69, 0x49]
      else if x = 0x17F then [0x73, 0x53]
      else if x = 0x212A then [0x6B, 0x4B]
      else [])"

definition chr_eq :: "flags \<Rightarrow> char \<Rightarrow> int \<Rightarrow> bool" where
  "chr_eq f c x = (x = of_char c \<or> (ignorecase f \<and> of_char c \<in> set (caseless x)))"

fun citem_mem :: "unicode \<Rightarrow> flags \<Rightarrow> citem \<Rightarrow> int \<Rightarrow> bool" where
  "citem_mem u f (CChar c) x = chr_eq f c x"
| "citem_mem u f (CCode n) x = (x = n)"
| "citem_mem u f (CRange a b) x =
     (in_range (of_char a) (of_char b) x
      \<or> (ignorecase f \<and> list_ex (in_range (of_char a) (of_char b)) (caseless x)))"
| "citem_mem u f CDigit x = is_decimal u x"
| "citem_mem u f CSpace x = is_space x"

definition cls_mem :: "unicode \<Rightarrow> flags \<Rightarrow> bool \<Rightarrow> citem list \<Rightarrow> int \<Rightarrow> bool" where
  "cls_mem u f neg items x = (list_ex (\<lambda>i. citem_mem u f i x) items \<noteq> neg)"

definition at_bol :: "flags \<Rightarrow> mstate \<Rightarrow> bool" where
  "at_bol f s = (prev s = None \<or> (multiline f \<and> prev s = Some (of_char newline)))"

definition at_boundary :: "unicode \<Rightarrow> mstate \<Rightarrow> bool" where
  "at_boundary u s =
     ((case prev s of None \<Rightarrow> False | Some c \<Rightarrow> is_word u c)
      \<noteq> (case rest s of [] \<Rightarrow> False | c # _ \<Rightarrow> is_word u c))"

definition dec :: "nat option \<Rightarrow> nat option" where
  "dec hi = map_option (\<lambda>h. h - 1) hi"

text \<open>
  Repetition.  The first \<open>lo\<close> rounds are mandatory; after them a further round is taken only
  when it consumes text, and a greedy repetition tries the further round before stopping where
  a lazy one tries stopping first.
\<close>

function rep :: "(mstate \<Rightarrow> mstate list) \<Rightarrow> nat \<Rightarrow> nat option \<Rightarrow> bool \<Rightarrow> mstate \<Rightarrow> mstate list" where
  "rep step lo hi g s =
     (if 0 < lo then concat (map (rep step (lo - 1) (dec hi) g) (step s))
      else if hi = Some 0 then [s]
      else (let more = concat (map (rep step 0 (dec hi) g)
                                   (filter (\<lambda>s'. length (rest s') < length (rest s)) (step s)))
            in if g then more @ [s] else s # more))"
  by pat_completeness auto
termination
  by (relation "measures [\<lambda>(step, lo, hi, g, s). lo, \<lambda>(step, lo, hi, g, s). length (rest s)]") auto

declare rep.simps [simp del]

primrec matches :: "unicode \<Rightarrow> flags \<Rightarrow> re \<Rightarrow> mstate \<Rightarrow> mstate list" where
  "matches u f Eps s = [s]"
| "matches u f (Lit c) s =
     (case rest s of [] \<Rightarrow> []
      | x # xs \<Rightarrow> if chr_eq f c x then [s\<lparr>prev := Some x, rest := xs\<rparr>] else [])"
| "matches u f (Cls neg items) s =
     (case rest s of [] \<Rightarrow> []
      | x # xs \<Rightarrow> if cls_mem u f neg items x then [s\<lparr>prev := Some x, rest := xs\<rparr>] else [])"
| "matches u f Bol s = (if at_bol f s then [s] else [])"
| "matches u f Wordb s = (if at_boundary u s then [s] else [])"
| "matches u f (Cat a b) s = concat (map (matches u f b) (matches u f a s))"
| "matches u f (Alt a b) s = matches u f a s @ matches u f b s"
| "matches u f (Rep lo hi g r) s = rep (matches u f r) lo hi g s"
| "matches u f (Grp n r) s =
     map (\<lambda>s'. s'\<lparr>grps := (n, take (length (rest s) - length (rest s')) (rest s)) # grps s'\<rparr>)
         (matches u f r s)"

subsection \<open>Match objects, \<^verbatim>\<open>re.search\<close> and \<^verbatim>\<open>re.sub\<close>\<close>

datatype error = IndexError | AttributeError | KeyError | ValueError | NerError string

record rmatch =
  matched :: str
  captures :: "(nat \<times> str) list"
  ngroups :: nat

text \<open>
  \<open>matched\<close> is \<^verbatim>\<open>m.group()\<close>; \<open>group m i\<close> is \<^verbatim>\<open>m.group(i)\<close>, which is \<^verbatim>\<open>None\<close> for a
  group that took no part in the match and raises for a group the pattern does not have.
\<close>

definition group :: "rmatch \<Rightarrow> nat \<Rightarrow> error + str option" where
  "group mt i =
     (if i = 0 then Inr (Some (matched mt))
      else if i \<le> ngroups mt then Inr (map_of (captures mt) i)
      else Inl IndexError)"

text \<open>
  A match attempt at one position.  With \<open>must\<close> set, an attempt that ends where it began is
  rejected and the matcher backtracks, as \<^verbatim>\<open>re.sub\<close> asks after an empty match.
\<close>

definition match_at :: "unicode \<Rightarrow> flags \<Rightarrow> re \<Rightarrow> bool \<Rightarrow> int option \<Rightarrow> str \<Rightarrow> mstate option" where
  "match_at u f r must p txt =
     find (\<lambda>s'. \<not> must \<or> length (rest s') < length txt)
          (matches u f r \<lparr>prev = p, rest = txt, grps = []\<rparr>)"

definition to_match :: "re \<Rightarrow> str \<Rightarrow> mstate \<Rightarrow> rmatch" where
  "to_match r txt s' =
     \<lparr>matched = take (length txt - length (rest s')) txt, captures = grps s',
      ngroups = count_groups r\<rparr>"

fun search_from :: "unicode \<Rightarrow> flags \<Rightarrow> re \<Rightarrow> int option \<Rightarrow> str \<Rightarrow> rmatch option" where
  "search_from u f r p [] = map_option (to_match r []) (match_at u f r False p [])"
| "search_from u f r p (c # cs) =
     (case match_at u f r False p (c # cs) of
        Some s' \<Rightarrow> Some (to_match r (c # cs) s')
      | None \<Rightarrow> search_from u f r (Some c) cs)"

definition search :: "unicode \<Rightarrow> flags \<Rightarrow> re \<Rightarrow> str \<Rightarrow> rmatch option" where
  "search u f r txt = search_from u f r None txt"

function sub_loop ::
  "unicode \<Rightarrow> flags \<Rightarrow> re \<Rightarrow> str \<Rightarrow> bool \<Rightarrow> int option \<Rightarrow> str \<Rightarrow> str" where
  "sub_loop u f r repl must p txt =
     (case match_at u f r must p txt of
        None \<Rightarrow> (case txt of [] \<Rightarrow> [] | c # cs \<Rightarrow> c # sub_loop u f r repl False (Some c) cs)
      | Some s' \<Rightarrow>
          if length (rest s') < length txt
          then repl @ sub_loop u f r repl False (prev s') (rest s')
          else repl @ sub_loop u f r repl True p txt)"
  by pat_completeness auto
termination
  by (relation "measures [\<lambda>(u, f, r, repl, must, p, txt). length txt,
                          \<lambda>(u, f, r, repl, must, p, txt). if must then 0 else 1]")
     (auto simp: match_at_def find_Some_iff)

declare sub_loop.simps [simp del]

text \<open>\<^verbatim>\<open>re.sub(pattern, repl, string)\<close> for a replacement text without group references.\<close>

definition sub :: "unicode \<Rightarrow> flags \<Rightarrow> re \<Rightarrow> str \<Rightarrow> str \<Rightarrow> str" where
  "sub u f r repl txt = sub_loop u f r repl False None txt"

section \<open>The patterns of \<^verbatim>\<open>parser.py\<close>\<close>

definition upper_AZ :: re where "upper_AZ = Cls False [CRange CHR ''A'' CHR ''Z'']"
definition lower_az :: re where "lower_az = Cls False [CRange CHR ''a'' CHR ''z'']"

subsection \<open>\<^verbatim>\<open>clean_name\<close>\<close>

text \<open>\<^verbatim>\<open>[#\*\-\_\|]+\<close>\<close>
definition name_junk :: re where
  "name_junk = Plus (Cls False [CChar CHR ''#'', CChar CHR ''*'', CChar CHR ''-'',
                                CChar CHR ''_'', CChar CHR ''|''])"

text \<open>\<^verbatim>\<open>\s+\<close>\<close>
definition spaces :: re where
  "spaces = Plus Space"

text \<open>\<^verbatim>\<open>^(Mr\.?|Ms\.?|Mrs\.?|Dr\.?|Prof\.?)\s+\<close>\<close>
definition name_prefix :: re where
  "name_prefix =
     cat [Bol,
          Grp 1 (alts [cat [lits ''Mr'', Opt (Lit CHR ''.'')],
                       cat [lits ''Ms'', Opt (Lit CHR ''.'')],
                       cat [lits ''Mrs'', Opt (Lit CHR ''.'')],
                       cat [lits ''Dr'', Opt (Lit CHR ''.'')],
                       cat [lits ''Prof'', Opt (Lit CHR ''.'')]]),
          Plus Space]"

text \<open>\<^verbatim>\<open>\s+(Resume|CV|Profile)\<close>\<close>
definition name_suffix :: re where
  "name_suffix = cat [Plus Space, Grp 1 (alts [lits ''Resume'', lits ''CV'', lits ''Profile''])]"

text \<open>\<^verbatim>\<open>\d+\<close>\<close>
definition digits :: re where
  "digits = Plus Digit"

subsection \<open>Email, phone and the name fallback\<close>

text \<open>\<^verbatim>\<open>\b[A-Za-z0-9._%+-]+@[A-Za-z0-9.-]+\.[A-Z|a-z]{2,}\b\<close>\<close>
definition email_pattern :: re where
  "email_pattern =
     cat [Wordb,
          Plus (Cls False [CRange CHR ''A'' CHR ''Z'', CRange CHR ''a'' CHR ''z'',
                           CRange CHR ''0'' CHR ''9'', CChar CHR ''.'', CChar CHR ''_'',
                           CChar CHR ''%'', CChar CHR ''+'', CChar CHR ''-'']),
          Lit CHR ''@'',
          Plus (Cls False [CRange CHR ''A'' CHR ''Z'', CRange CHR ''a'' CHR ''z'',
                           CRange CHR ''0'' CHR ''9'', CChar CHR ''.'', CChar CHR ''-'']),
          Lit CHR ''.'',
          Rep 2 None True (Cls False [CRange CHR ''A'' CHR ''Z'', CChar CHR ''|'',
                                      CRange CHR ''a'' CHR ''z'']),
          Wordb]"

text \<open>\<^verbatim>\<open>[-.\s]\<close>\<close>
definition phone_sep :: re where
  "phone_sep = Cls False [CChar CHR ''-'', CChar CHR ''.'', CSpace]"

text \<open>
  \<^verbatim>\<open>\+?\d{1,3}[-.\s]?\(?\d{3}\)?[-.\s]?\d{3}[-.\s]?\d{4}\<close>, \<^verbatim>\<open>\b\d{10}\b\<close> and
  \<^verbatim>\<open>\+\d{10,15}\b\<close>
\<close>
definition phone_patterns :: "re list" where
  "phone_patterns =
     [cat [Opt (Lit CHR ''+''), Rep 1 (Some 3) True Digit, Opt phone_sep, Opt (Lit CHR ''(''),
           Times 3 Digit, Opt (Lit CHR '')''), Opt phone_sep, Times 3 Digit, Opt phone_sep,
           Times 4 Digit],
      cat [Wordb, Times 10 Digit, Wordb],
      cat [Lit CHR ''+'', Rep 10 (Some 15) True Digit, Wordb]]"

text \<open>\<^verbatim>\<open>[-.\s()]\<close>\<close>
definition phone_strip :: re where
  "phone_strip = Cls False [CChar CHR ''-'', CChar CHR ''.'', CSpace, CChar CHR ''('',
                            CChar CHR '')'']"

text \<open>\<^verbatim>\<open>^([A-Z][a-z]+(?:\s+[A-Z][a-z]+){1,3})\<close>\<close>
definition name_pattern :: re where
  "name_pattern =
     cat [Bol,
          Grp 1 (cat [upper_AZ, Plus lower_az,
                      Rep 1 (Some 3) True (cat [Plus Space, upper_AZ, Plus lower_az])])]"

subsection \<open>College\<close>

definition institution :: re where
  "institution = alts [lits ''Institute'', lits ''University'', lits ''College'', lits ''School'']"

definition institute_abbr :: re where
  "institute_abbr = alts [lits ''IIT'', lits ''NIT'', lits ''BITS'', lits ''VIT'', lits ''MIT'',
                        lits ''IIM'', lits ''IIIT'']"

text \<open>\<^verbatim>\<open>[A-Za-z\s&,.-]\<close>\<close>
definition name_chars :: re where
  "name_chars = Cls False [CRange CHR ''A'' CHR ''Z'', CRange CHR ''a'' CHR ''z'', CSpace,
                           CChar CHR ''&'', CChar CHR '','', CChar CHR ''.'', CChar CHR ''-'']"

text \<open>\<^verbatim>\<open>(?:\d{4}|\n)\<close>\<close>
definition year_or_newline :: re where
  "year_or_newline = Alt (Times 4 Digit) (Lit newline)"

text \<open>
  \<^enum> \<^verbatim>\<open>([A-Z][A-Za-z\s&,.-]+?(?:Institute|University|College|School)[A-Za-z\s&,.-]*?)\s*\d{4}\<close>
  \<^enum> \<^verbatim>\<open>([A-Z][^\n]*?\s+(?:Institute|University|College|School)\s+of\s+[^\n]+?)(?:\d{4}|\n)\<close>
  \<^enum> \<^verbatim>\<open>((?:IIT|NIT|BITS|VIT|MIT|IIM|IIIT)[^\n]+?)(?:\d{4}|\n)\<close>
  \<^enum> \<^verbatim>\<open>([A-Z][^\n]{10,80}?(?:Institute|University|College|School)[^\n]{0,40}?)(?:\d{4}|\n)\<close>
  \<^enum> \<^verbatim>\<open>\b(IIT|NIT|BITS|VIT|MIT|IIM|IIIT)\s+[A-Z][a-zA-Z]*\<close>
\<close>

definition college_pattern1 :: re where
  "college_pattern1 =
     cat [Grp 1 (cat [upper_AZ, PlusLazy name_chars, institution, StarLazy name_chars]),
          Star Space, Times 4 Digit]"

definition college_pattern2 :: re where
  "college_pattern2 =
     cat [Grp 1 (cat [upper_AZ, StarLazy NotNL, Plus Space, institution, Plus Space, lits ''of'',
                      Plus Space, PlusLazy NotNL]),
          year_or_newline]"

definition college_pattern3 :: re where
  "college_pattern3 = cat [Grp 1 (cat [institute_abbr, PlusLazy NotNL]), year_or_newline]"

definition college_pattern4 :: re where
  "college_pattern4 =
     cat [Grp 1 (cat [upper_AZ, Rep 10 (Some 80) False NotNL, institution,
                      Rep 0 (Some 40) False NotNL]),
          year_or_newline]"

definition college_pattern5 :: re where
  "college_pattern5 =
     cat [Wordb, Grp 1 institute_abbr, Plus Space, upper_AZ,
          Star (Cls False [CRange CHR ''a'' CHR ''z'', CRange CHR ''A'' CHR ''Z''])]"

definition college_patterns :: "re list" where
  "college_patterns =
     [college_pattern1, college_pattern2, college_pattern3, college_pattern4, college_pattern5]"

text \<open>
  The cleaning patterns \<^verbatim>\<open>\d{4}\s*[-\<dots>]\s*\d{4}\<close>, \<^verbatim>\<open>\d{4}\s*[-\<dots>]\s*Present\<close> and
  \<^verbatim>\<open>Education\s*\<close>.  The class of the first two has two members, the hyphen and the en
  dash (U+2013), the one character of the program that is not ASCII.
\<close>

definition year_range :: re where
  "year_range = cat [Times 4 Digit, Star Space, Cls False [CChar CHR ''-'', CCode 0x2013], Star Space,
                     Times 4 Digit]"

definition year_present :: re where
  "year_present = cat [Times 4 Digit, Star Space, Cls False [CChar CHR ''-'', CCode 0x2013], Star Space,
                       lits ''Present'']"

definition education_label :: re where
  "education_label = cat [lits ''Education'', Star Space]"

subsection \<open>Degree and CGPA\<close>

definition degree_field :: re where
  "degree_field = alts [lits ''Engineering'', lits ''Technology'', lits ''Science'', lits ''Arts'',
                 lits ''Commerce'']"

text \<open>\<^verbatim>\<open>(?:CGPA|GPA|Grade|\d{4}|\n)\<close>\<close>
definition degree_stop :: re where
  "degree_stop = alts [lits ''CGPA'', lits ''GPA'', lits ''Grade'', Times 4 Digit, Lit newline]"

text \<open>
  \<^enum> \<^verbatim>\<open>(Bachelor\s+of\s+(?:Engineering|Technology|Science|Arts|Commerce)[^\n]*?(?:in[^\n]+?)?)\s*(?:CGPA|GPA|Grade|\d{4}|\n)\<close>
  \<^enum> the same with \<^verbatim>\<open>Master\<close>
  \<^enum> \<^verbatim>\<open>(B\.?E\.?|B\.?Tech\.?|M\.?Tech\.?|B\.?Sc\.?|M\.?Sc\.?|PhD)[^\n]*?(?:in\s+[^\n]+?)?\s*(?:CGPA|GPA|Grade|\d{4}|\n)\<close>
\<close>

definition degree_of :: "string \<Rightarrow> re" where
  "degree_of title =
     cat [Grp 1 (cat [lits title, Plus Space, lits ''of'', Plus Space, degree_field, StarLazy NotNL,
                      Opt (cat [lits ''in'', PlusLazy NotNL])]),
          Star Space, degree_stop]"

definition dot :: re where
  "dot = Opt (Lit CHR ''.'')"

definition degree_short :: re where
  "degree_short =
     cat [Grp 1 (alts [cat [Lit CHR ''B'', dot, Lit CHR ''E'', dot],
                       cat [Lit CHR ''B'', dot, lits ''Tech'', dot],
                       cat [Lit CHR ''M'', dot, lits ''Tech'', dot],
                       cat [Lit CHR ''B'', dot, lits ''Sc'', dot],
                       cat [Lit CHR ''M'', dot, lits ''Sc'', dot],
                       lits ''PhD'']),
          StarLazy NotNL, Opt (cat [lits ''in'', Plus Space, PlusLazy NotNL]), Star Space,
          degree_stop]"

definition degree_patterns :: "re list" where
  "degree_patterns = [degree_of ''Bachelor'', degree_of ''Master'', degree_short]"

text \<open>\<^verbatim>\<open>\d+\.?\d*\<close>\<close>
definition number :: re where
  "number = cat [Plus Digit, Opt (Lit CHR ''.''), Star Digit]"

text \<open>
  \<^enum> \<^verbatim>\<open>(?:CGPA|GPA|Grade)\s*[:\-]?\s*(\d+\.?\d*)\s*(?:/|out\s+of)?\s*(\d+\.?\d*)?\<close>
  \<^enum> \<^verbatim>\<open>(\d+\.?\d*)\s*/\s*(\d+\.?\d*)\s*(?:CGPA|GPA)\<close>
  \<^enum> \<^verbatim>\<open>(?:Percentage|Marks)\s*[:\-]?\s*(\d+\.?\d*)%?\<close>
\<close>

definition colon_or_dash :: re where
  "colon_or_dash = Opt (Cls False [CChar CHR '':'', CChar CHR ''-''])"

definition cgpa_patterns :: "re list" where
  "cgpa_patterns =
     [cat [alts [lits ''CGPA'', lits ''GPA'', lits ''Grade''], Star Space, colon_or_dash,
           Star Space, Grp 1 number, Star Space,
           Opt (Alt (Lit CHR ''/'') (cat [lits ''out'', Plus Space, lits ''of''])), Star Space,
           Opt (Grp 2 number)],
      cat [Grp 1 number, Star Space, Lit CHR ''/'', Star Space, Grp 2 number, Star Space,
           alts [lits ''CGPA'', lits ''GPA'']],
      cat [alts [lits ''Percentage'', lits ''Marks''], Star Space, colon_or_dash, Star Space,
           Grp 1 number, Opt (Lit CHR ''%'')]]"

section \<open>\<^verbatim>\<open>clean_name\<close>\<close>

definition clean_name :: "unicode \<Rightarrow> str option \<Rightarrow> str option" where
  "clean_name u arg =
     (case arg of
        None \<Rightarrow> None
      | Some name0 \<Rightarrow>
          if name0 = [] then None
          else
            (let name = sub u no_flags name_junk (ascii '' '') name0;
                 name = sub u no_flags spaces (ascii '' '') name;
                 name = sub u IGNORECASE name_prefix [] name;
                 name = sub u IGNORECASE name_suffix [] name;
                 name = sub u no_flags digits [] name;
                 words = split name;
                 words = filter (\<lambda>word. length word > 1) words;
                 name = join (ascii '' '') (map (capitalize u) words);
                 cleaned = strip name
             in if length (split cleaned) \<ge> 2 \<and> 4 \<le> length cleaned \<and> length cleaned \<le> 50
                then Some cleaned else None))"

section \<open>\<^verbatim>\<open>extract_details_huggingface\<close>\<close>

text \<open>
  The module defines \<^verbatim>\<open>extract_details_huggingface\<close> twice; the second definition (lines 222
  to 387) replaces the first when the module is loaded and is the function that callers get.
  It is the one modelled here.  Of the first definition (lines 48 to 219) only the two places
  where it differs are modelled, under names ending in \<open>shadowed\<close>.

  The result is the dictionary \<^verbatim>\<open>details\<close>, a list of key and value pairs in insertion
  order; a value is \<^verbatim>\<open>None\<close> or a string.
\<close>

type_synonym details = "(string \<times> str option) list"

definition dict_set :: "string \<Rightarrow> str option \<Rightarrow> details \<Rightarrow> details" where
  "dict_set k v d = AList.update k v d"

definition dict_get :: "details \<Rightarrow> string \<Rightarrow> error + str option" where
  "dict_get d k = (case map_of d k of None \<Rightarrow> Inl KeyError | Some v \<Rightarrow> Inr v)"

definition and_then :: "error + 'a \<Rightarrow> ('a \<Rightarrow> error + 'b) \<Rightarrow> error + 'b" where
  "and_then x k = (case x of Inl e \<Rightarrow> Inl e | Inr v \<Rightarrow> k v)"

definition init_details :: details where
  "init_details = [(''name'', None), (''email'', None), (''phone'', None), (''college'', None),
                   (''degree'', None), (''cgpa'', None)]"

subsection \<open>Email and phone\<close>

definition extract_email :: "unicode \<Rightarrow> str \<Rightarrow> details \<Rightarrow> details" where
  "extract_email u text details =
     (case search u no_flags email_pattern text of
        Some email_match \<Rightarrow> dict_set ''email'' (Some (matched email_match)) details
      | None \<Rightarrow> details)"

fun phone_loop :: "unicode \<Rightarrow> re list \<Rightarrow> str \<Rightarrow> details \<Rightarrow> details" where
  "phone_loop u [] text details = details"
| "phone_loop u (pattern # patterns) text details =
     (case search u no_flags pattern text of
        Some phone_match \<Rightarrow>
          (let phone = sub u no_flags phone_strip [] (matched phone_match)
           in dict_set ''phone'' (Some phone) details)
      | None \<Rightarrow> phone_loop u patterns text details)"

subsection \<open>The name from the entity recogniser\<close>

text \<open>
  The recogniser is the \<^verbatim>\<open>transformers\<close> pipeline, which is not part of the repository: it
  is a parameter.  Building the pipeline may raise, and so may running it; when it runs it
  returns a list of entities.  A score is a Python float; the only operation on it is the
  comparison with \<^verbatim>\<open>0.75\<close>, which is exact, so a score is modelled by the real number it
  denotes.
\<close>

record person =
  word :: str
  start :: int
  end' :: int
  score :: real

record entity = person +
  entity_group :: string

type_synonym ner = "str \<Rightarrow> error + entity list"

fun collect_persons :: "entity list \<Rightarrow> person list \<Rightarrow> person list" where
  "collect_persons [] person_entities = person_entities"
| "collect_persons (ent # entities) person_entities =
     (if entity_group ent = ''PER'' \<and> score ent > 0.75
      then collect_persons entities
             (person_entities @ [\<lparr>word = word ent, start = start ent, end' = end' ent,
                                   score = score ent\<rparr>])
      else collect_persons entities person_entities)"

text \<open>
  The merging loop of the live definition (lines 278 to 286): the state is the list of
  finished names, the name being built and the end of the last span.
\<close>

fun combine_loop :: "person list \<Rightarrow> str list \<Rightarrow> str \<Rightarrow> int \<Rightarrow> str list \<times> str" where
  "combine_loop [] combined_names current_name last_end = (combined_names, current_name)"
| "combine_loop (p # ps) combined_names current_name last_end =
     (if start p - last_end \<le> 5
      then combine_loop ps combined_names (current_name @ ascii '' '' @ word p) (end' p)
      else combine_loop ps (combined_names @ [current_name]) (word p) (end' p))"

text \<open>The merging loop of the shadowed first definition (lines 104 to 120).\<close>

fun combine_loop_shadowed ::
  "person list \<Rightarrow> str list \<Rightarrow> str \<Rightarrow> int \<Rightarrow> str list \<times> str" where
  "combine_loop_shadowed [] combined_names current_name last_end = (combined_names, current_name)"
| "combine_loop_shadowed (p # ps) combined_names current_name last_end =
     (let gap = start p - last_end
      in if gap \<le> 2
         then combine_loop_shadowed ps combined_names (current_name @ word p) (end' p)
         else if gap \<le> 5
         then combine_loop_shadowed ps combined_names (current_name @ ascii '' '' @ word p) (end' p)
         else combine_loop_shadowed ps (combined_names @ [current_name]) (word p) (end' p))"

text \<open>\<^verbatim>\<open>max(combined_names, key=len)\<close>: the first name of greatest length.\<close>

fun max_len :: "str list \<Rightarrow> error + str" where
  "max_len [] = Inl ValueError"
| "max_len (x # xs) = Inr (foldl (\<lambda>best y. if length y > length best then y else best) x xs)"

text \<open>
  From the sorted person spans to the raw name: lines 274 to 292 of the live definition, and
  the same lines of the shadowed one with its own loop.
\<close>

definition raw_name :: "person list \<Rightarrow> error + str" where
  "raw_name person_entities =
     (case person_entities of
        [] \<Rightarrow> Inl IndexError
      | p0 # ps \<Rightarrow>
          (case combine_loop ps [] (word p0) (end' p0) of
             (combined_names, current_name) \<Rightarrow> max_len (combined_names @ [current_name])))"

definition raw_name_shadowed :: "person list \<Rightarrow> error + str" where
  "raw_name_shadowed person_entities =
     (case person_entities of
        [] \<Rightarrow> Inl IndexError
      | p0 # ps \<Rightarrow>
          (case combine_loop_shadowed ps [] (word p0) (end' p0) of
             (combined_names, current_name) \<Rightarrow> max_len (combined_names @ [current_name])))"

text \<open>The body of the \<^verbatim>\<open>try\<close> block (lines 255 to 293).\<close>

definition ner_name_try :: "unicode \<Rightarrow> error + ner \<Rightarrow> str \<Rightarrow> details \<Rightarrow> error + details" where
  "ner_name_try u pipeline text details =
     and_then pipeline (\<lambda>ner.
     and_then (ner (take 1000 text)) (\<lambda>entities.
       (let person_entities = collect_persons entities []
        in if person_entities \<noteq> []
           then and_then (raw_name (sort_key start person_entities)) (\<lambda>raw.
                  Inr (dict_set ''name'' (clean_name u (Some raw)) details))
           else Inr details)))"

text \<open>
  \<^verbatim>\<open>except Exception\<close>: whatever the block raises is caught, a line is printed (the output
  is not modelled), and the dictionary is as it was before the block, which assigns to it
  only in its last statement.
\<close>

definition ner_name :: "unicode \<Rightarrow> error + ner \<Rightarrow> str \<Rightarrow> details \<Rightarrow> details" where
  "ner_name u pipeline text details =
     (case ner_name_try u pipeline text details of Inl e \<Rightarrow> details | Inr d \<Rightarrow> d)"

subsection \<open>The name fallbacks\<close>

definition name_stopwords :: "string list" where
  "name_stopwords = [''resume'', ''cv'', ''curriculum'', ''profile'', ''contact'', ''email'', ''phone'',
               ''education'', ''experience'']"

text \<open>The guard \<^verbatim>\<open>not details["name"] or len(details["name"]) < 4\<close>.\<close>

definition name_missing :: "str option \<Rightarrow> bool" where
  "name_missing name = (case name of None \<Rightarrow> True | Some s \<Rightarrow> s = [] \<or> length s < 4)"

text \<open>
  \<^verbatim>\<open>all(word[0].isupper() for word in words if len(word) > 1)\<close>: the filter keeps words of two
  characters or more, so \<^verbatim>\<open>word[0]\<close> exists.
\<close>

definition capitalised :: "unicode \<Rightarrow> str list \<Rightarrow> bool" where
  "capitalised u words =
     list_all (\<lambda>word. case word of [] \<Rightarrow> False | c # _ \<Rightarrow> is_upper u c)
              (filter (\<lambda>word. length word > 1) words)"

fun line_loop :: "unicode \<Rightarrow> str list \<Rightarrow> details \<Rightarrow> details" where
  "line_loop u [] details = details"
| "line_loop u (line0 # lines) details =
     (let line = strip line0
      in if list_ex (\<lambda>keyword. contains (lower u line) (ascii keyword)) name_stopwords
         then line_loop u lines details
         else (let words = split line
               in if 2 \<le> length words \<and> length words \<le> 4 \<and> \<not> list_ex (is_digit u) line
                  then (if capitalised u words
                        then dict_set ''name'' (clean_name u (Some line)) details
                        else line_loop u lines details)
                  else line_loop u lines details))"

definition fallback1 :: "unicode \<Rightarrow> str \<Rightarrow> details \<Rightarrow> error + details" where
  "fallback1 u text details =
     and_then (dict_get details ''name'') (\<lambda>name.
       if name_missing name
       then Inr (line_loop u (take 5 (split_on newline text)) details)
       else Inr details)"

definition fallback2 :: "unicode \<Rightarrow> str \<Rightarrow> details \<Rightarrow> error + details" where
  "fallback2 u text details =
     and_then (dict_get details ''name'') (\<lambda>name.
       if name_missing name
       then (case search u MULTILINE name_pattern text of
               Some name_match \<Rightarrow>
                 and_then (group name_match 1) (\<lambda>g.
                   Inr (dict_set ''name'' (clean_name u g) details))
             | None \<Rightarrow> Inr details)
       else Inr details)"

subsection \<open>College, degree and CGPA\<close>

text \<open>\<^verbatim>\<open>m.group(1).strip()\<close> raises when the group is \<^verbatim>\<open>None\<close>.\<close>

definition group_strip :: "rmatch \<Rightarrow> error + str" where
  "group_strip mt =
     and_then (group mt 1) (\<lambda>g. case g of None \<Rightarrow> Inl AttributeError | Some s \<Rightarrow> Inr (strip s))"

definition clean_college :: "unicode \<Rightarrow> str \<Rightarrow> str" where
  "clean_college u college_text0 =
     (let college_text = sub u no_flags spaces (ascii '' '') college_text0;
          college_text = sub u no_flags year_range [] college_text;
          college_text = sub u no_flags year_present [] college_text;
          college_text = sub u IGNORECASE education_label [] college_text
      in strip college_text)"

fun college_loop :: "unicode \<Rightarrow> re list \<Rightarrow> str \<Rightarrow> details \<Rightarrow> error + details" where
  "college_loop u [] text details = Inr details"
| "college_loop u (pattern # patterns) text details =
     (case search u IGNORECASE pattern text of
        Some college_match \<Rightarrow>
          and_then (group_strip college_match) (\<lambda>college_text0.
            (let college_text = clean_college u college_text0
             in if 5 \<le> length college_text \<and> length college_text \<le> 150
                then Inr (dict_set ''college'' (Some college_text) details)
                else college_loop u patterns text details))
      | None \<Rightarrow> college_loop u patterns text details)"

fun degree_loop :: "unicode \<Rightarrow> re list \<Rightarrow> str \<Rightarrow> details \<Rightarrow> error + details" where
  "degree_loop u [] text details = Inr details"
| "degree_loop u (pattern # patterns) text details =
     (case search u IGNORECASE pattern text of
        Some degree_match \<Rightarrow>
          and_then (group_strip degree_match) (\<lambda>degree_text0.
            (let degree_text = sub u no_flags spaces (ascii '' '') degree_text0
             in Inr (dict_set ''degree'' (Some degree_text) details)))
      | None \<Rightarrow> degree_loop u patterns text details)"

text \<open>An f-string prints \<^verbatim>\<open>None\<close> as the word \<^verbatim>\<open>None\<close>.\<close>

definition fmt :: "str option \<Rightarrow> str" where
  "fmt g = (case g of None \<Rightarrow> ascii ''None'' | Some s \<Rightarrow> s)"

definition truthy :: "str option \<Rightarrow> bool" where
  "truthy g = (case g of None \<Rightarrow> False | Some s \<Rightarrow> s \<noteq> [])"

fun cgpa_loop :: "unicode \<Rightarrow> re list \<Rightarrow> str \<Rightarrow> details \<Rightarrow> error + details" where
  "cgpa_loop u [] text details = Inr details"
| "cgpa_loop u (pattern # patterns) text details =
     (case search u IGNORECASE pattern text of
        Some cgpa_match \<Rightarrow>
          and_then (if ngroups cgpa_match \<ge> 2
                    then and_then (group cgpa_match 2) (\<lambda>g2. Inr (truthy g2))
                    else Inr False) (\<lambda>two.
            if two
            then and_then (group cgpa_match 1) (\<lambda>g1.
                 and_then (group cgpa_match 2) (\<lambda>g2.
                   Inr (dict_set ''cgpa'' (Some (fmt g1 @ ascii '' / '' @ fmt g2)) details)))
            else and_then (group cgpa_match 1) (\<lambda>g1. Inr (dict_set ''cgpa'' g1 details)))
      | None \<Rightarrow> cgpa_loop u patterns text details)"

subsection \<open>The whole function\<close>

text \<open>
  The arguments are the Unicode tables of the interpreter, the recogniser, the text of the
  resume and the sender's number, which the function does not use.
\<close>

definition extract_details_huggingface ::
  "unicode \<Rightarrow> error + ner \<Rightarrow> str \<Rightarrow> str option \<Rightarrow> error + details" where
  "extract_details_huggingface u pipeline text sender_number =
     (let details = init_details;
          details = extract_email u text details;
          details = phone_loop u phone_patterns text details;
          details = ner_name u pipeline text details
      in and_then (fallback1 u text details) (\<lambda>details.
         and_then (fallback2 u text details) (\<lambda>details.
         and_then (college_loop u college_patterns text details) (\<lambda>details.
         and_then (degree_loop u degree_patterns text details) (\<lambda>details.
         cgpa_loop u cgpa_patterns text details)))))"

definition reaches :: "mstate \<Rightarrow> mstate \<Rightarrow> bool" where
  "reaches s s' = (suffix (rest s') (rest s) \<and> (\<forall>g. map_of (grps s) g \<noteq> None \<longrightarrow> map_of (grps s') g \<noteq> None))"

fun minlen :: "re \<Rightarrow> nat" where
  "minlen (Lit c) = 1"
| "minlen (Cls neg items) = 1"
| "minlen (Cat a b) = minlen a + minlen b"
| "minlen (Alt a b) = min (minlen a) (minlen b)"
| "minlen (Rep lo hi g r) = (if lo = 0 then 0 else minlen r)"
| "minlen (Grp n r) = minlen r"
| "minlen _ = 0"

fun maxlen :: "re \<Rightarrow> nat option" where
  "maxlen (Lit c) = Some 1"
| "maxlen (Cls neg items) = Some 1"
| "maxlen (Cat a b) = (case (maxlen a, maxlen b) of (Some m, Some n) \<Rightarrow> Some (m + n) | _ \<Rightarrow> None)"
| "maxlen (Alt a b) = (case (maxlen a, maxlen b) of (Some m, Some n) \<Rightarrow> Some (max m n) | _ \<Rightarrow> None)"
| "maxlen (Rep lo hi g r) = None"
| "maxlen (Grp n r) = maxlen r"
| "maxlen _ = Some 0"

fun sets_group :: "nat \<Rightarrow> re \<Rightarrow> bool" where
  "sets_group g (Cat a b) = (sets_group g a \<or> sets_group g b)"
| "sets_group g (Alt a b) = (sets_group g a \<and> sets_group g b)"
| "sets_group g (Rep lo hi gr r) = (0 < lo \<and> sets_group g r)"
| "sets_group g (Grp n r) = (n = g \<or> sets_group g r)"
| "sets_group g _ = False"

fun grp_all :: "(re \<Rightarrow> bool) \<Rightarrow> nat \<Rightarrow> re \<Rightarrow> bool" where
  "grp_all Q g (Cat a b) = (grp_all Q g a \<and> grp_all Q g b)"
| "grp_all Q g (Alt a b) = (grp_all Q g a \<and> grp_all Q g b)"
| "grp_all Q g (Rep lo hi gr r) = grp_all Q g r"
| "grp_all Q g (Grp n r) = ((n = g \<longrightarrow> Q r) \<and> grp_all Q g r)"
| "grp_all Q g _ = True"

definition grp_inv :: "(str \<Rightarrow> bool) \<Rightarrow> nat \<Rightarrow> (nat \<times> str) list \<Rightarrow> bool" where
  "grp_inv P g caps = (case map_of caps g of None \<Rightarrow> True | Some w \<Rightarrow> P w)"

fun firstok :: "unicode \<Rightarrow> flags \<Rightarrow> re \<Rightarrow> int \<Rightarrow> bool" where
  "firstok u f (Lit c) x = chr_eq f c x"
| "firstok u f (Cls neg items) x = cls_mem u f neg items x"
| "firstok u f (Cat a b) x = (firstok u f a x \<or> (minlen a = 0 \<and> firstok u f b x))"
| "firstok u f (Alt a b) x = (firstok u f a x \<or> firstok u f b x)"
| "firstok u f (Rep lo hi g r) x = firstok u f r x"
| "firstok u f (Grp n r) x = firstok u f r x"
| "firstok u f _ x = False"

definition consumed :: "mstate \<Rightarrow> mstate \<Rightarrow> str" where
  "consumed s s' = take (length (rest s) - length (rest s')) (rest s)"

definition dict_keys :: "details \<Rightarrow> string list" where
  "dict_keys d = map fst d"

definition upd :: "string \<Rightarrow> (str option \<Rightarrow> bool) \<Rightarrow> details \<Rightarrow> details \<Rightarrow> bool" where
  "upd k V d d' = (d' = d \<or> (\<exists>v. V v \<and> d' = dict_set k v d))"

definition nonempty :: "str option \<Rightarrow> bool" where
  "nonempty v = (\<exists>s. v = Some s \<and> s \<noteq> [])"

definition cleaned :: "str option \<Rightarrow> bool" where
  "cleaned v = (v = None \<or> (\<exists>s. v = Some s \<and> 4 \<le> length s \<and> length s \<le> 50 \<and> 2 \<le> length (split s)))"

definition college_ok :: "str option \<Rightarrow> bool" where
  "college_ok v = (\<exists>c. v = Some c \<and> 5 \<le> length c \<and> length c \<le> 150)"

definition field_ok :: "str option \<Rightarrow> bool" where
  "field_ok v = (case v of None \<Rightarrow> True | Some s \<Rightarrow> s \<noteq> [])"

definition starts_visible :: "str \<Rightarrow> bool" where
  "starts_visible w = (case w of [] \<Rightarrow> False | x # _ \<Rightarrow> \<not> is_space x)"

definition visible_first :: "unicode \<Rightarrow> flags \<Rightarrow> re \<Rightarrow> bool" where
  "visible_first u f r = (0 < minlen r \<and> (\<forall>x. firstok u f r x \<longrightarrow> \<not> is_space x))"

definition nonnull :: "re \<Rightarrow> bool" where
  "nonnull r = (0 < minlen r)"

definition all_ok :: "details \<Rightarrow> bool" where
  "all_ok d = (\<forall>k v. dict_get d k = Inr v \<longrightarrow> field_ok v)"

text \<open>
  The dictionary when the primary name strategy has run (after line 296), and when the first
  fallback has run (after line 315): the prefixes of \<^verbatim>\<open>extract_details_huggingface\<close> up to the
  two guards.
\<close>

definition after_primary :: "unicode \<Rightarrow> error + ner \<Rightarrow> str \<Rightarrow> details" where
  "after_primary u pipeline text =
     ner_name u pipeline text (phone_loop u phone_patterns text (extract_email u text init_details))"

definition after_fallback1 :: "unicode \<Rightarrow> error + ner \<Rightarrow> str \<Rightarrow> error + details" where
  "after_fallback1 u pipeline text = fallback1 u text (after_primary u pipeline text)"

text \<open>
  The merging of person spans said in words, with one threshold: consecutive spans whose gap
  is at most 5 belong to one candidate, a gap over 5 starts the next candidate, and a candidate
  is its words joined by single spaces.  \<open>combine_loop\<close> is compared with it.
\<close>

fun merge_runs :: "person list \<Rightarrow> person list list" where
  "merge_runs [] = []"
| "merge_runs [p] = [[p]]"
| "merge_runs (p # q # ps) =
     (if start q - end' p \<le> 5
      then (p # hd (merge_runs (q # ps))) # tl (merge_runs (q # ps))
      else [p] # merge_runs (q # ps))"

definition candidate :: "person list \<Rightarrow> str" where
  "candidate run = join (ascii '' '') (map word run)"

definition merge_spec :: "person list \<Rightarrow> str list" where
  "merge_spec ps = map candidate (merge_runs ps)"

fun candidates_from :: "str \<Rightarrow> person \<Rightarrow> person list \<Rightarrow> str list" where
  "candidates_from cur q [] = [cur]"
| "candidates_from cur q (p # ps) =
     (if start p - end' q \<le> 5 then candidates_from (cur @ ascii '' '' @ word p) p ps
      else cur # candidates_from (word p) p ps)"

definition to_person :: "entity \<Rightarrow> person" where
  "to_person ent = \<lparr>word = word ent, start = start ent, end' = end' ent, score = score ent\<rparr>"

text \<open>
  A cascade of patterns said in words: the match of the first pattern of the list that
  matches somewhere in the text, and whether none does.  The loops are compared with them.
\<close>

fun first_match :: "unicode \<Rightarrow> flags \<Rightarrow> re list \<Rightarrow> str \<Rightarrow> rmatch option" where
  "first_match u f [] text = None"
| "first_match u f (p # ps) text =
     (case search u f p text of Some m \<Rightarrow> Some m | None \<Rightarrow> first_match u f ps text)"

definition no_match :: "unicode \<Rightarrow> flags \<Rightarrow> re list \<Rightarrow> str \<Rightarrow> bool" where
  "no_match u f ps text = list_all (\<lambda>p. search u f p text = None) ps"

definition separator :: "int \<Rightarrow> bool" where
  "separator c = (c \<in> set (ascii ''-.()'') \<or> is_space c)"

definition short_abbr :: "re \<Rightarrow> bool" where
  "short_abbr r = (3 \<le> minlen r \<and> (case maxlen r of None \<Rightarrow> False | Some n \<Rightarrow> n \<le> 4))"

text \<open>
  The college cascade said in words: each pattern that matches offers the cleaned text of its
  first group, in the order of the patterns, and the value is the first offer whose length is
  between 5 and 150; there is no value when no offer qualifies.
\<close>

definition in_bounds :: "str \<Rightarrow> bool" where
  "in_bounds s = (5 \<le> length s \<and> length s \<le> 150)"

fun college_offers :: "unicode \<Rightarrow> re list \<Rightarrow> str \<Rightarrow> str list" where
  "college_offers u [] text = []"
| "college_offers u (p # ps) text =
     (case search u IGNORECASE p text of
        None \<Rightarrow> college_offers u ps text
      | Some m \<Rightarrow>
          (case group m 1 of
             Inr (Some w) \<Rightarrow> clean_college u (strip w) # college_offers u ps text
           | _ \<Rightarrow> college_offers u ps text))"

text \<open>
  Tables in which no character beyond ASCII is a digit, a letter or cased.  They serve for
  the examples, which are ASCII texts: there the tables are not consulted.
\<close>

definition plain :: unicode where
  "plain = \<lparr>isdecimal = (\<lambda>c. False), isdigit = (\<lambda>c. False), isalnum = (\<lambda>c. False),
            isupper = (\<lambda>c. False), lower_str = (\<lambda>s. s), capitalize_str = (\<lambda>s. s)\<rparr>"

lemma rep_rel:
  "s' \<in> set (rep step lo hi g s) \<Longrightarrow> (\<And>a b. b \<in> set (step a) \<Longrightarrow> R a b) \<Longrightarrow> (\<And>a. R a a)
   \<Longrightarrow> (\<And>a b c. R a b \<Longrightarrow> R b c \<Longrightarrow> R a c) \<Longrightarrow> R s s'"
proof (induction step lo hi g s arbitrary: s' rule: rep.induct)
  case (1 step lo hi g s)
  note st = "1.prems"(2) and rf = "1.prems"(3) and tr = "1.prems"(4)
  show ?case
  proof (cases "0 < lo")
    case True
    with "1.prems"(1) obtain x where x: "x \<in> set (step s)" "s' \<in> set (rep step (lo - 1) (dec hi) g x)"
      by (subst (asm) rep.simps) auto
    have "R x s'" by (rule "1.IH"(1)[OF True x(1) x(2) st rf tr])
    with st[OF x(1)] show ?thesis by (rule tr)
  next
    case False
    show ?thesis
    proof (cases "hi = Some 0")
      case True
      with False "1.prems"(1) have "s' = s" by (subst (asm) rep.simps) auto
      then show ?thesis by (simp add: rf)
    next
      case hi: False
      from False hi "1.prems"(1) consider "s' = s"
        | x where "x \<in> set (filter (\<lambda>s'. length (rest s') < length (rest s)) (step s))"
                  "s' \<in> set (rep step 0 (dec hi) g x)"
        by (subst (asm) rep.simps) (auto simp: Let_def split: if_splits)
      then show ?thesis
      proof cases
        case 1 then show ?thesis by (simp add: rf)
      next
        case (2 x)
        have "R x s'" by (rule "1.IH"(2)[OF False hi 2(1) 2(2) st rf tr])
        moreover have "R s x" using 2(1) st by simp
        ultimately show ?thesis using tr by blast
      qed
    qed
  qed
qed

lemma reaches_refl: "reaches a a"
  by (simp add: reaches_def)

lemma reaches_trans: "reaches a b \<Longrightarrow> reaches b c \<Longrightarrow> reaches a c"
  by (auto simp: reaches_def intro: suffix_order.trans)

lemma matches_Lit_D:
  "s' \<in> set (matches u f (Lit c) s) \<Longrightarrow>
   \<exists>x. rest s = x # rest s' \<and> chr_eq f c x \<and> grps s' = grps s \<and> prev s' = Some x"
  by (cases "rest s") (auto split: if_splits)

lemma matches_Cls_D:
  "s' \<in> set (matches u f (Cls neg items) s) \<Longrightarrow>
   \<exists>x. rest s = x # rest s' \<and> cls_mem u f neg items x \<and> grps s' = grps s \<and> prev s' = Some x"
  by (cases "rest s") (auto split: if_splits)

lemma matches_reaches: "s' \<in> set (matches u f r s) \<Longrightarrow> reaches s s'"
proof (induction r arbitrary: s s')
  case (Cat a b)
  from Cat.prems obtain x where x: "x \<in> set (matches u f a s)" "s' \<in> set (matches u f b x)"
    by auto
  from Cat.IH(1)[OF x(1)] Cat.IH(2)[OF x(2)] show ?case by (rule reaches_trans)
next
  case (Alt a b)
  then show ?case by auto
next
  case (Rep lo hi g r)
  from Rep.prems have "s' \<in> set (rep (matches u f r) lo hi g s)" by simp
  then show ?case
    by (rule rep_rel) (auto intro: Rep.IH reaches_refl reaches_trans)
next
  case (Grp n r)
  from Grp.prems obtain x where x: "x \<in> set (matches u f r s)"
    "s' = x\<lparr>grps := (n, take (length (rest s) - length (rest x)) (rest s)) # grps x\<rparr>"
    by auto
  from Grp.IH[OF x(1)] show ?case by (auto simp: x(2) reaches_def)
next
  case (Lit c)
  from matches_Lit_D[OF Lit] show ?case by (auto simp: reaches_def suffix_def)
next
  case (Cls neg items)
  from matches_Cls_D[OF Cls] show ?case by (auto simp: reaches_def suffix_def)
qed (auto simp: reaches_def split: if_splits)

lemma reaches_length: "reaches s s' \<Longrightarrow> length (rest s') \<le> length (rest s)"
  by (auto simp: reaches_def suffix_def)

lemma rep_first_round:
  "0 < lo \<Longrightarrow> s' \<in> set (rep step lo hi g s) \<Longrightarrow>
   \<exists>x \<in> set (step s). s' \<in> set (rep step (lo - 1) (dec hi) g x)"
  by (subst (asm) rep.simps) auto

lemma rep_reaches:
  "s' \<in> set (rep (matches u f r) lo hi g s) \<Longrightarrow> reaches s s'"
  by (rule rep_rel) (auto intro: matches_reaches reaches_refl reaches_trans)

lemma matches_minlen: "s' \<in> set (matches u f r s) \<Longrightarrow> length (rest s') + minlen r \<le> length (rest s)"
proof (induction r arbitrary: s s')
  case (Cat a b)
  from Cat.prems obtain x where x: "x \<in> set (matches u f a s)" "s' \<in> set (matches u f b x)"
    by auto
  from Cat.IH(1)[OF x(1)] Cat.IH(2)[OF x(2)] show ?case by simp
next
  case (Alt a b)
  from Alt.prems consider "s' \<in> set (matches u f a s)" | "s' \<in> set (matches u f b s)" by auto
  then show ?case
  proof cases
    case 1 from Alt.IH(1)[OF 1] show ?thesis by simp
  next
    case 2 from Alt.IH(2)[OF 2] show ?thesis by simp
  qed
next
  case (Rep lo hi g r)
  from Rep.prems have mem: "s' \<in> set (rep (matches u f r) lo hi g s)" by simp
  show ?case
  proof (cases "lo = 0")
    case True
    from reaches_length[OF rep_reaches[OF mem]] True show ?thesis by simp
  next
    case False
    then have "0 < lo" by simp
    from rep_first_round[OF this mem] obtain x where
      x: "x \<in> set (matches u f r s)" "s' \<in> set (rep (matches u f r) (lo - 1) (dec hi) g x)"
      by blast
    from reaches_length[OF rep_reaches[OF x(2)]] Rep.IH[OF x(1)] False show ?thesis by simp
  qed
next
  case (Grp n r)
  from Grp.prems obtain x where x: "x \<in> set (matches u f r s)"
    "s' = x\<lparr>grps := (n, take (length (rest s) - length (rest x)) (rest s)) # grps x\<rparr>"
    by auto
  from Grp.IH[OF x(1)] show ?case by (simp add: x(2))
next
  case (Lit c)
  from matches_Lit_D[OF Lit] show ?case by auto
next
  case (Cls neg items)
  from matches_Cls_D[OF Cls] show ?case by auto
qed (auto split: if_splits)

lemma reaches_defined: "reaches s s' \<Longrightarrow> map_of (grps s) g \<noteq> None \<Longrightarrow> map_of (grps s') g \<noteq> None"
  by (simp add: reaches_def)

lemma matches_sets_group:
  "sets_group g r \<Longrightarrow> s' \<in> set (matches u f r s) \<Longrightarrow> map_of (grps s') g \<noteq> None"
proof (induction r arbitrary: s s')
  case (Cat a b)
  from Cat.prems obtain x where x: "x \<in> set (matches u f a s)" "s' \<in> set (matches u f b x)"
    by auto
  from Cat.prems(1) consider "sets_group g a" | "sets_group g b" by auto
  then show ?case
  proof cases
    case 1
    from Cat.IH(1)[OF 1 x(1)] matches_reaches[OF x(2)] show ?thesis by (rule reaches_defined[rotated])
  next
    case 2
    from Cat.IH(2)[OF 2 x(2)] show ?thesis .
  qed
next
  case (Alt a b)
  from Alt.prems consider "s' \<in> set (matches u f a s)" | "s' \<in> set (matches u f b s)" by auto
  then show ?case using Alt.IH Alt.prems(1) by cases auto
next
  case (Rep lo hi gr r)
  from Rep.prems have lo: "0 < lo" and sg: "sets_group g r"
    and mem: "s' \<in> set (rep (matches u f r) lo hi gr s)" by auto
  from rep_first_round[OF lo mem] obtain x where
    x: "x \<in> set (matches u f r s)" "s' \<in> set (rep (matches u f r) (lo - 1) (dec hi) gr x)" by blast
  from Rep.IH[OF sg x(1)] rep_reaches[OF x(2)] show ?case by (rule reaches_defined[rotated])
next
  case (Grp n r)
  from Grp.prems obtain x where x: "x \<in> set (matches u f r s)"
    "s' = x\<lparr>grps := (n, take (length (rest s) - length (rest x)) (rest s)) # grps x\<rparr>"
    by auto
  show ?case
  proof (cases "n = g")
    case True then show ?thesis by (simp add: x(2))
  next
    case False
    with Grp.prems(1) have "sets_group g r" by simp
    from Grp.IH[OF this x(1)] show ?thesis by (simp add: x(2))
  qed
qed auto

lemma matches_maxlen:
  "maxlen r = Some n \<Longrightarrow> s' \<in> set (matches u f r s) \<Longrightarrow> length (rest s) \<le> length (rest s') + n"
proof (induction r arbitrary: s s' n)
  case (Cat a b)
  from Cat.prems(2) obtain x where x: "x \<in> set (matches u f a s)" "s' \<in> set (matches u f b x)"
    by auto
  from Cat.prems(1) obtain m k where mk: "maxlen a = Some m" "maxlen b = Some k" "n = m + k"
    by (auto split: option.splits)
  from Cat.IH(1)[OF mk(1) x(1)] Cat.IH(2)[OF mk(2) x(2)] mk(3) show ?case by simp
next
  case (Alt a b)
  from Alt.prems(1) obtain m k where mk: "maxlen a = Some m" "maxlen b = Some k" "n = max m k"
    by (auto split: option.splits)
  from Alt.prems(2) consider "s' \<in> set (matches u f a s)" | "s' \<in> set (matches u f b s)" by auto
  then show ?case
  proof cases
    case 1 from Alt.IH(1)[OF mk(1) 1] mk(3) show ?thesis by simp
  next
    case 2 from Alt.IH(2)[OF mk(2) 2] mk(3) show ?thesis by simp
  qed
next
  case (Grp k r)
  from Grp.prems(2) obtain x where x: "x \<in> set (matches u f r s)"
    "s' = x\<lparr>grps := (k, take (length (rest s) - length (rest x)) (rest s)) # grps x\<rparr>"
    by auto
  from Grp.prems(1) have "maxlen r = Some n" by simp
  from Grp.IH[OF this x(1)] show ?case by (simp add: x(2))
next
  case (Lit c)
  from matches_Lit_D[OF Lit(2)] Lit(1) show ?case by auto
next
  case (Cls neg items)
  from matches_Cls_D[OF Cls(2)] Cls(1) show ?case by auto
qed (auto split: if_splits)

lemma matches_grp_all:
  assumes Q: "\<And>r s s'. Q r \<Longrightarrow> s' \<in> set (matches u f r s) \<Longrightarrow> P (consumed s s')"
  shows "grp_all Q g r \<Longrightarrow> s' \<in> set (matches u f r s) \<Longrightarrow> grp_inv P g (grps s)
         \<Longrightarrow> grp_inv P g (grps s')"
proof (induction r arbitrary: s s')
  case (Cat a b)
  from Cat.prems(2) obtain x where x: "x \<in> set (matches u f a s)" "s' \<in> set (matches u f b x)"
    by auto
  from Cat.prems(1) have ga: "grp_all Q g a" and gb: "grp_all Q g b" by auto
  from Cat.IH(2)[OF gb x(2) Cat.IH(1)[OF ga x(1) Cat.prems(3)]] show ?case .
next
  case (Alt a b)
  from Alt.prems(2) consider "s' \<in> set (matches u f a s)" | "s' \<in> set (matches u f b s)" by auto
  then show ?case using Alt.IH Alt.prems(1,3) by cases auto
next
  case (Rep lo hi gr r)
  from Rep.prems(2) have mem: "s' \<in> set (rep (matches u f r) lo hi gr s)" by simp
  from Rep.prems(1) have gr: "grp_all Q g r" by simp
  have "grp_inv P g (grps s) \<longrightarrow> grp_inv P g (grps s')"
    by (rule rep_rel[OF mem, where R = "\<lambda>a b. grp_inv P g (grps a) \<longrightarrow> grp_inv P g (grps b)"])
       (auto intro: Rep.IH[OF gr])
  with Rep.prems(3) show ?case by simp
next
  case (Grp n r)
  from Grp.prems(2) obtain x where x: "x \<in> set (matches u f r s)"
    "s' = x\<lparr>grps := (n, consumed s x) # grps x\<rparr>"
    by (auto simp: consumed_def)
  from Grp.prems(1) have gr: "grp_all Q g r" and q: "n = g \<longrightarrow> Q r" by auto
  from Grp.IH[OF gr x(1) Grp.prems(3)] have inv: "grp_inv P g (grps x)" .
  show ?case
  proof (cases "n = g")
    case True
    with q Q x(1) have "P (consumed s x)" by blast
    with True show ?thesis by (simp add: x(2) grp_inv_def)
  next
    case False
    with inv show ?thesis by (simp add: x(2) grp_inv_def)
  qed
next
  case (Lit c)
  from matches_Lit_D[OF Lit(2)] Lit(3) show ?case by auto
next
  case (Cls neg items)
  from matches_Cls_D[OF Cls(2)] Cls(3) show ?case by auto
qed (auto split: if_splits)

lemma reaches_same: "reaches s s' \<Longrightarrow> \<not> length (rest s') < length (rest s) \<Longrightarrow> rest s' = rest s"
  by (auto simp: reaches_def suffix_def)

lemma rep_first:
  "s' \<in> set (rep step lo hi g s) \<Longrightarrow> length (rest s') < length (rest s)
   \<Longrightarrow> (\<And>a b. b \<in> set (step a) \<Longrightarrow> reaches a b)
   \<Longrightarrow> (\<And>a b. b \<in> set (step a) \<Longrightarrow> length (rest b) < length (rest a) \<Longrightarrow> \<exists>x xs. rest a = x # xs \<and> F x)
   \<Longrightarrow> \<exists>x xs. rest s = x # xs \<and> F x"
proof (induction step lo hi g s arbitrary: s' rule: rep.induct)
  case (1 step lo hi g s)
  note len = "1.prems"(2) and rch = "1.prems"(3) and fst = "1.prems"(4)
  show ?case
  proof (cases "0 < lo")
    case True
    from rep_first_round[OF True "1.prems"(1)] obtain x where
      x: "x \<in> set (step s)" "s' \<in> set (rep step (lo - 1) (dec hi) g x)" by blast
    show ?thesis
    proof (cases "length (rest x) < length (rest s)")
      case True then show ?thesis using fst[OF x(1)] by simp
    next
      case False
      from reaches_same[OF rch[OF x(1)] False] have eq: "rest x = rest s" .
      with len have "length (rest s') < length (rest x)" by simp
      from "1.IH"(1)[OF True x(1) x(2) this rch fst] eq show ?thesis by simp
    qed
  next
    case False
    show ?thesis
    proof (cases "hi = Some 0")
      case True
      with False "1.prems"(1) have "s' = s" by (subst (asm) rep.simps) auto
      with len show ?thesis by simp
    next
      case hi: False
      from False hi "1.prems"(1) consider "s' = s"
        | x where "x \<in> set (step s)" "length (rest x) < length (rest s)"
        by (subst (asm) rep.simps) (auto simp: Let_def split: if_splits)
      then show ?thesis
      proof cases
        case 1 with len show ?thesis by simp
      next
        case (2 x) then show ?thesis using fst by simp
      qed
    qed
  qed
qed

lemma matches_first:
  "s' \<in> set (matches u f r s) \<Longrightarrow> length (rest s') < length (rest s)
   \<Longrightarrow> \<exists>x xs. rest s = x # xs \<and> firstok u f r x"
proof (induction r arbitrary: s s')
  case (Cat a b)
  from Cat.prems(1) obtain x where x: "x \<in> set (matches u f a s)" "s' \<in> set (matches u f b x)"
    by auto
  show ?case
  proof (cases "length (rest x) < length (rest s)")
    case True from Cat.IH(1)[OF x(1) True] show ?thesis by auto
  next
    case False
    from reaches_same[OF matches_reaches[OF x(1)] False] have eq: "rest x = rest s" .
    with matches_minlen[OF x(1)] have m0: "minlen a = 0" by simp
    from eq Cat.prems(2) have "length (rest s') < length (rest x)" by simp
    from Cat.IH(2)[OF x(2) this] eq m0 show ?thesis by auto
  qed
next
  case (Alt a b)
  from Alt.prems(1) consider "s' \<in> set (matches u f a s)" | "s' \<in> set (matches u f b s)" by auto
  then show ?case
  proof cases
    case 1 from Alt.IH(1)[OF 1 Alt.prems(2)] show ?thesis by auto
  next
    case 2 from Alt.IH(2)[OF 2 Alt.prems(2)] show ?thesis by auto
  qed
next
  case (Rep lo hi g r)
  from Rep.prems(1) have mem: "s' \<in> set (rep (matches u f r) lo hi g s)" by simp
  have "\<exists>x xs. rest s = x # xs \<and> firstok u f r x"
  proof (rule rep_first[OF mem Rep.prems(2)])
    fix a b assume "b \<in> set (matches u f r a)"
    then show "reaches a b" by (rule matches_reaches)
  next
    fix a b assume "b \<in> set (matches u f r a)" "length (rest b) < length (rest a)"
    then show "\<exists>x xs. rest a = x # xs \<and> firstok u f r x" by (rule Rep.IH)
  qed
  then show ?case by simp
next
  case (Grp n r)
  from Grp.prems(1) obtain x where x: "x \<in> set (matches u f r s)"
    "s' = x\<lparr>grps := (n, take (length (rest s) - length (rest x)) (rest s)) # grps x\<rparr>"
    by auto
  from Grp.prems(2) have "length (rest x) < length (rest s)" by (simp add: x(2))
  from Grp.IH[OF x(1) this] show ?case by simp
next
  case (Lit c)
  from matches_Lit_D[OF Lit(1)] show ?case by auto
next
  case (Cls neg items)
  from matches_Cls_D[OF Cls(1)] show ?case by auto
qed (auto split: if_splits)

lemma match_at_D:
  "match_at u f r must p tx = Some s' \<Longrightarrow>
   s' \<in> set (matches u f r \<lparr>prev = p, rest = tx, grps = []\<rparr>) \<and> (must \<longrightarrow> length (rest s') < length tx)"
  by (auto simp: match_at_def find_Some_iff)

lemma search_from_D:
  "search_from u f r p tx = Some mt \<Longrightarrow>
   \<exists>q sfx s'. suffix sfx tx \<and> s' \<in> set (matches u f r \<lparr>prev = q, rest = sfx, grps = []\<rparr>)
              \<and> mt = to_match r sfx s'"
proof (induction tx arbitrary: p)
  case Nil
  then obtain s' where "match_at u f r False p [] = Some s'" "mt = to_match r [] s'" by auto
  with match_at_D[of u f r False p "[]" s'] show ?case by blast
next
  case (Cons c cs)
  show ?case
  proof (cases "match_at u f r False p (c # cs)")
    case None
    with Cons.prems have "search_from u f r (Some c) cs = Some mt" by simp
    from Cons.IH[OF this] obtain q sfx s' where
      "suffix sfx cs" "s' \<in> set (matches u f r \<lparr>prev = q, rest = sfx, grps = []\<rparr>)"
      "mt = to_match r sfx s'" by blast
    moreover from this(1) have "suffix sfx (c # cs)" by (rule suffix_ConsI)
    ultimately show ?thesis by blast
  next
    case (Some s')
    with Cons.prems have "mt = to_match r (c # cs) s'" by simp
    with match_at_D[OF Some] show ?thesis by blast
  qed
qed

lemma search_D:
  "search u f r tx = Some mt \<Longrightarrow>
   \<exists>q sfx s'. suffix sfx tx \<and> s' \<in> set (matches u f r \<lparr>prev = q, rest = sfx, grps = []\<rparr>)
              \<and> mt = to_match r sfx s'"
  unfolding search_def by (rule search_from_D)

lemma to_match_matched:
  "s' \<in> set (matches u f r s) \<Longrightarrow> rest s = sfx \<Longrightarrow> matched (to_match r sfx s') = consumed s s'"
  by (simp add: to_match_def consumed_def)

lemma consumed_length:
  "s' \<in> set (matches u f r s) \<Longrightarrow> length (consumed s s') = length (rest s) - length (rest s')"
  by (simp add: consumed_def)

lemma search_ngroups: "search u f r tx = Some mt \<Longrightarrow> ngroups mt = count_groups r"
  by (drule search_D) (auto simp: to_match_def)

lemma search_minlen: "search u f r tx = Some mt \<Longrightarrow> minlen r \<le> length (matched mt)"
proof -
  assume "search u f r tx = Some mt"
  from search_D[OF this] obtain q sfx s' where
    s: "s' \<in> set (matches u f r \<lparr>prev = q, rest = sfx, grps = []\<rparr>)" "mt = to_match r sfx s'" by blast
  from matches_minlen[OF s(1)] show ?thesis by (simp add: s(2) to_match_def)
qed

lemma search_sets_group:
  "search u f r tx = Some mt \<Longrightarrow> sets_group g r \<Longrightarrow> \<exists>w. map_of (captures mt) g = Some w"
proof -
  assume a: "search u f r tx = Some mt" "sets_group g r"
  from search_D[OF a(1)] obtain q sfx s' where
    s: "s' \<in> set (matches u f r \<lparr>prev = q, rest = sfx, grps = []\<rparr>)" "mt = to_match r sfx s'" by blast
  from matches_sets_group[OF a(2) s(1)] show ?thesis by (simp add: s(2) to_match_def)
qed

lemma search_grp_all:
  assumes Q: "\<And>r s s'. Q r \<Longrightarrow> s' \<in> set (matches u f r s) \<Longrightarrow> P (consumed s s')"
    and "search u f r tx = Some mt" "grp_all Q g r"
  shows "grp_inv P g (captures mt)"
proof -
  from search_D[OF assms(2)] obtain q sfx s' where
    s: "s' \<in> set (matches u f r \<lparr>prev = q, rest = sfx, grps = []\<rparr>)" "mt = to_match r sfx s'" by blast
  have "grp_inv P g (grps s')"
  proof (rule matches_grp_all[where Q = Q and P = P and f = f])
    show "grp_all Q g r" by (rule assms(3))
    show "s' \<in> set (matches u f r \<lparr>prev = q, rest = sfx, grps = []\<rparr>)" by (rule s(1))
    show "grp_inv P g (grps \<lparr>prev = q, rest = sfx, grps = []\<rparr>)" by (simp add: grp_inv_def)
  qed (rule Q)
  then show ?thesis by (simp add: s(2) to_match_def)
qed

lemma consumed_first:
  "s' \<in> set (matches u f r s) \<Longrightarrow> 0 < minlen r \<Longrightarrow> \<exists>x xs. consumed s s' = x # xs \<and> firstok u f r x"
proof -
  assume a: "s' \<in> set (matches u f r s)" "0 < minlen r"
  from matches_minlen[OF a(1)] a(2) have lt: "length (rest s') < length (rest s)" by simp
  from matches_first[OF a(1) lt] obtain x xs where x: "rest s = x # xs" "firstok u f r x" by blast
  from lt x(1) have "length (rest s) - length (rest s') = Suc (length xs - length (rest s'))"
    by simp
  with x(1) have "consumed s s' = x # take (length xs - length (rest s')) xs"
    by (simp add: consumed_def)
  with x(2) show ?thesis by blast
qed

lemma search_first:
  "search u f r tx = Some mt \<Longrightarrow> 0 < minlen r \<Longrightarrow> \<exists>x xs. matched mt = x # xs \<and> firstok u f r x"
proof -
  assume a: "search u f r tx = Some mt" "0 < minlen r"
  from search_D[OF a(1)] obtain q sfx s' where
    s: "s' \<in> set (matches u f r \<lparr>prev = q, rest = sfx, grps = []\<rparr>)" "mt = to_match r sfx s'" by blast
  from consumed_first[OF s(1) a(2)] show ?thesis by (simp add: s(2) to_match_def consumed_def)
qed

lemma sub_loop_length:
  "length repl \<le> minlen r \<Longrightarrow> length (sub_loop u f r repl must p tx) \<le> length tx"
proof (induction u f r repl must p tx rule: sub_loop.induct)
  case (1 u f r repl must p tx)
  show ?case
  proof (cases "match_at u f r must p tx")
    case None
    show ?thesis
    proof (cases tx)
      case Nil
      with None show ?thesis by (subst sub_loop.simps) simp
    next
      case (Cons c cs)
      from "1.IH"(1)[OF None Cons "1.prems"] None Cons show ?thesis
        by (subst sub_loop.simps) simp
    qed
  next
    case (Some s')
    from match_at_D[OF Some] have mem: "s' \<in> set (matches u f r \<lparr>prev = p, rest = tx, grps = []\<rparr>)"
      by simp
    from matches_minlen[OF mem] have ml: "length (rest s') + minlen r \<le> length tx" by simp
    show ?thesis
    proof (cases "length (rest s') < length tx")
      case True
      from "1.IH"(2)[OF Some True "1.prems"] ml "1.prems" Some True show ?thesis
        by (subst sub_loop.simps) simp
    next
      case False
      with ml "1.prems" have "length repl = 0" by arith
      then have "repl = []" by simp
      with "1.IH"(3)[OF Some False "1.prems"] Some False show ?thesis
        by (subst sub_loop.simps) simp
    qed
  qed
qed

lemma sub_length: "length repl \<le> minlen r \<Longrightarrow> length (sub u f r repl tx) \<le> length tx"
  unfolding sub_def by (rule sub_loop_length)

lemma sub_loop_nonempty: "tx \<noteq> [] \<Longrightarrow> repl \<noteq> [] \<Longrightarrow> sub_loop u f r repl must p tx \<noteq> []"
  by (subst sub_loop.simps) (auto split: option.splits list.splits)

lemma sub_loop_Cls:
  "sub_loop u f (Cls neg items) [] must p tx = filter (\<lambda>c. \<not> cls_mem u f neg items c) tx"
proof (induction tx arbitrary: must p)
  case Nil
  show ?case by (subst sub_loop.simps) (simp add: match_at_def)
next
  case (Cons c cs)
  show ?case by (subst sub_loop.simps) (simp add: match_at_def Cons)
qed

lemma dict_get_set: "dict_get (dict_set k v d) k' = (if k' = k then Inr v else dict_get d k')"
  by (simp add: dict_get_def dict_set_def update_conv')

lemma keys_dict_set: "k \<in> set (dict_keys d) \<Longrightarrow> dict_keys (dict_set k v d) = dict_keys d"
  by (simp add: dict_set_def dict_keys_def update_keys)

lemma upd_refl: "upd k V d d"
  by (simp add: upd_def)

lemma upd_set: "V v \<Longrightarrow> upd k V d (dict_set k v d)"
  by (auto simp: upd_def)

lemma upd_mono: "upd k V d d' \<Longrightarrow> (\<And>v. V v \<Longrightarrow> W v) \<Longrightarrow> upd k W d d'"
  by (auto simp: upd_def)

lemma upd_get_other: "upd k V d d' \<Longrightarrow> k' \<noteq> k \<Longrightarrow> dict_get d' k' = dict_get d k'"
  by (auto simp: upd_def dict_get_set)

lemma upd_keys: "upd k V d d' \<Longrightarrow> k \<in> set (dict_keys d) \<Longrightarrow> dict_keys d' = dict_keys d"
  by (auto simp: upd_def keys_dict_set)

lemma upd_get: "upd k V d d' \<Longrightarrow> dict_get d k = Inr v0 \<Longrightarrow> \<exists>v. dict_get d' k = Inr v \<and> (v = v0 \<or> V v)"
  by (auto simp: upd_def dict_get_set)

lemma clean_name_cleaned: "cleaned (clean_name u a)"
  by (auto simp: cleaned_def clean_name_def Let_def split: option.splits)

lemma name_missing_cleaned: "cleaned v \<Longrightarrow> name_missing v = (v = None)"
  by (auto simp: cleaned_def name_missing_def)

lemma extract_email_upd: "upd ''email'' nonempty d (extract_email u text d)"
proof (cases "search u no_flags email_pattern text")
  case None
  then show ?thesis by (simp add: extract_email_def upd_refl)
next
  case (Some mt)
  have "0 < minlen email_pattern" by (simp add: email_pattern_def Plus_def)
  with search_minlen[OF Some] have "matched mt \<noteq> []" by auto
  with Some show ?thesis by (simp add: extract_email_def upd_set nonempty_def)
qed

lemma sub_phone_strip:
  "sub u no_flags phone_strip [] tx = filter (\<lambda>c. \<not> separator c) tx"
  by (simp add: sub_def phone_strip_def sub_loop_Cls cls_mem_def chr_eq_def no_flags_def
      separator_def ascii_def disj_ac)

lemma is_space_ascii: "is_space c \<Longrightarrow> c < 128 \<Longrightarrow> c \<le> 32"
  unfolding is_space_def by auto

lemma digit_not_sep: "is_decimal u c \<Longrightarrow> \<not> separator c"
proof (cases "c < 128")
  case True
  assume "is_decimal u c"
  with True have r: "48 \<le> c" "c \<le> 57" by (simp_all add: is_decimal_def in_range_def)
  with is_space_ascii[OF _ True] have "\<not> is_space c" by auto
  with r show ?thesis by (auto simp: separator_def ascii_def)
next
  case False
  assume "is_decimal u c"
  with False have "\<not> is_space c" by (simp add: is_decimal_def)
  with False show ?thesis by (auto simp: separator_def ascii_def)
qed

lemma firstok_Digit: "firstok u no_flags Digit x = is_decimal u x"
  by (simp add: Digit_def cls_mem_def)

lemma chr_eq_no_flags: "chr_eq no_flags c x = (x = of_char c)"
  by (simp add: chr_eq_def no_flags_def)

lemma minlen_Digit: "minlen Digit = Suc 0"
  by (simp add: Digit_def)

lemma phone_minlen: "p \<in> set phone_patterns \<Longrightarrow> 0 < minlen p"
  by (auto simp: phone_patterns_def Opt_def Times_def minlen_Digit)

lemma phone_firstok:
  "p \<in> set phone_patterns \<Longrightarrow> firstok u no_flags p x \<Longrightarrow> x = of_char CHR ''+'' \<or> is_decimal u x"
  by (auto simp: phone_patterns_def Opt_def Times_def firstok_Digit minlen_Digit chr_eq_no_flags)

lemma plus_not_sep: "\<not> separator (of_char CHR ''+'')"
  by (simp add: separator_def ascii_def is_space_def)

lemma phone_loop_upd:
  "set ps \<subseteq> set phone_patterns \<Longrightarrow> upd ''phone'' nonempty d (phone_loop u ps text d)"
proof (induction ps)
  case Nil
  show ?case by (simp add: upd_refl)
next
  case (Cons p ps)
  show ?case
  proof (cases "search u no_flags p text")
    case None
    with Cons show ?thesis by simp
  next
    case (Some mt)
    from Cons.prems have p: "p \<in> set phone_patterns" by simp
    from search_first[OF Some phone_minlen[OF p]] obtain x xs where
      x: "matched mt = x # xs" "firstok u no_flags p x" by blast
    from phone_firstok[OF p x(2)] have "\<not> separator x"
    proof
      assume "x = of_char CHR ''+''" then show ?thesis using plus_not_sep by simp
    next
      assume "is_decimal u x" then show ?thesis by (rule digit_not_sep)
    qed
    with x(1) have "sub u no_flags phone_strip [] (matched mt) \<noteq> []"
      by (simp add: sub_phone_strip)
    with Some show ?thesis by (simp add: upd_set nonempty_def)
  qed
qed

lemma ner_name_upd: "upd ''name'' cleaned d (ner_name u pipeline text d)"
  by (auto simp: ner_name_def ner_name_try_def and_then_def Let_def upd_refl upd_set
      clean_name_cleaned split: sum.splits)

lemma line_loop_upd: "upd ''name'' cleaned d (line_loop u ls d)"
  by (induction ls) (auto simp: Let_def upd_refl upd_set clean_name_cleaned)

lemma dict_get_key: "k \<in> set (dict_keys d) \<Longrightarrow> \<exists>v. dict_get d k = Inr v"
  by (auto simp: dict_get_def dict_keys_def map_of_eq_None_iff split: option.splits)

lemma fallback1_upd:
  "''name'' \<in> set (dict_keys d) \<Longrightarrow> \<exists>d'. fallback1 u text d = Inr d' \<and> upd ''name'' cleaned d d'"
  by (drule dict_get_key) (auto simp: fallback1_def and_then_def upd_refl line_loop_upd)

lemma fallback2_upd:
  "''name'' \<in> set (dict_keys d) \<Longrightarrow> \<exists>d'. fallback2 u text d = Inr d' \<and> upd ''name'' cleaned d d'"
proof -
  assume "''name'' \<in> set (dict_keys d)"
  from dict_get_key[OF this] obtain v where v: "dict_get d ''name'' = Inr v" by blast
  show ?thesis
  proof (cases "name_missing v \<and> search u MULTILINE name_pattern text \<noteq> None")
    case False
    with v show ?thesis by (auto simp: fallback2_def and_then_def upd_refl)
  next
    case True
    then obtain mt where mt: "search u MULTILINE name_pattern text = Some mt" by auto
    have "count_groups name_pattern = 1" by (simp add: name_pattern_def upper_AZ_def lower_az_def Plus_def Space_def)
    with search_ngroups[OF mt] have "group mt 1 = Inr (map_of (captures mt) 1)" by (simp add: group_def)
    with v True mt show ?thesis
      by (auto simp: fallback2_def and_then_def upd_set clean_name_cleaned)
  qed
qed

lemma lits_Cons: "lits (c # cs) = (if cs = [] then Lit c else Cat (Lit c) (lits cs))"
  by (cases cs) (simp_all add: lits_def)

lemma count_groups_lits: "count_groups (lits s) = 0"
  by (induction s) (simp_all add: lits_Cons, simp add: lits_def)

lemma sets_group_lits: "\<not> sets_group g (lits s)"
  by (induction s) (simp_all add: lits_Cons, simp add: lits_def)

lemma grp_all_lits: "grp_all Q g (lits s)"
  by (induction s) (simp_all add: lits_Cons, simp add: lits_def)

lemma minlen_lits: "minlen (lits s) = length s"
  by (induction s) (simp_all add: lits_Cons, simp add: lits_def)

lemma maxlen_lits: "maxlen (lits s) = Some (length s)"
  by (induction s) (simp_all add: lits_Cons, simp add: lits_def)

lemma firstok_lits: "firstok u f (lits (c # cs)) x = chr_eq f c x"
  by (simp add: lits_Cons)

lemma sets_group_count: "sets_group g r \<Longrightarrow> 1 \<le> count_groups r"
  by (induction r) auto

lemma group_strip_ok:
  assumes "search u f r tx = Some mt" "sets_group 1 r"
  shows "\<exists>w. map_of (captures mt) 1 = Some w \<and> group_strip mt = Inr (strip w)"
proof -
  from search_sets_group[OF assms] obtain w where w: "map_of (captures mt) 1 = Some w" by blast
  from sets_group_count[OF assms(2)] search_ngroups[OF assms(1)] have "1 \<le> ngroups mt" by simp
  with w show ?thesis by (simp add: group_strip_def group_def and_then_def)
qed

lemma college_loop_upd:
  "\<forall>p\<in>set ps. sets_group 1 p \<Longrightarrow>
   \<exists>d'. college_loop u ps text d = Inr d' \<and> upd ''college'' college_ok d d'"
proof (induction ps)
  case Nil
  show ?case by (simp add: upd_refl)
next
  case (Cons p ps)
  from Cons.prems have ih: "\<exists>d'. college_loop u ps text d = Inr d' \<and> upd ''college'' college_ok d d'"
    by (intro Cons.IH) simp
  show ?case
  proof (cases "search u IGNORECASE p text")
    case None
    with ih show ?thesis by simp
  next
    case (Some mt)
    from Cons.prems have "sets_group 1 p" by simp
    from group_strip_ok[OF Some this] obtain w where w: "group_strip mt = Inr (strip w)" by blast
    show ?thesis
    proof (cases "5 \<le> length (clean_college u (strip w)) \<and> length (clean_college u (strip w)) \<le> 150")
      case True
      with Some w show ?thesis
        by (simp add: and_then_def Let_def upd_set college_ok_def)
    next
      case False
      with Some w ih show ?thesis by (auto simp: and_then_def Let_def)
    qed
  qed
qed

lemma college_patterns_group: "\<forall>p\<in>set college_patterns. sets_group 1 p"
  by (simp add: college_patterns_def college_pattern1_def college_pattern2_def
      college_pattern3_def college_pattern4_def college_pattern5_def)

lemma strip_visible: "starts_visible w \<Longrightarrow> strip w \<noteq> []"
proof -
  assume "starts_visible w"
  then obtain x xs where w: "w = x # xs" "\<not> is_space x"
    by (auto simp: starts_visible_def split: list.splits)
  then have "dropWhile is_space w = w" by simp
  moreover from w have "\<exists>y\<in>set (rev w). \<not> is_space y" by auto
  then have "dropWhile is_space (rev w) \<noteq> []" by (simp add: dropWhile_eq_Nil_conv)
  ultimately show ?thesis by (simp add: strip_def)
qed

lemma sub_nonempty: "tx \<noteq> [] \<Longrightarrow> repl \<noteq> [] \<Longrightarrow> sub u f r repl tx \<noteq> []"
  unfolding sub_def by (rule sub_loop_nonempty)

lemma visible_first_sound:
  "visible_first u f r \<Longrightarrow> s' \<in> set (matches u f r s) \<Longrightarrow> starts_visible (consumed s s')"
proof -
  assume v: "visible_first u f r" and m: "s' \<in> set (matches u f r s)"
  from v have "0 < minlen r" by (simp add: visible_first_def)
  from consumed_first[OF m this] obtain x xs where "consumed s s' = x # xs" "firstok u f r x" by blast
  with v show ?thesis by (simp add: visible_first_def starts_visible_def)
qed

lemma degree_loop_upd:
  "\<forall>p\<in>set ps. sets_group 1 p \<and> grp_all (visible_first u IGNORECASE) 1 p \<Longrightarrow>
   \<exists>d'. degree_loop u ps text d = Inr d' \<and> upd ''degree'' nonempty d d'"
proof (induction ps)
  case Nil
  show ?case by (simp add: upd_refl)
next
  case (Cons p ps)
  from Cons.prems have ih: "\<exists>d'. degree_loop u ps text d = Inr d' \<and> upd ''degree'' nonempty d d'"
    by (intro Cons.IH) simp
  show ?case
  proof (cases "search u IGNORECASE p text")
    case None
    with ih show ?thesis by simp
  next
    case (Some mt)
    from Cons.prems have p: "sets_group 1 p" "grp_all (visible_first u IGNORECASE) 1 p" by simp_all
    from group_strip_ok[OF Some p(1)] obtain w where
      w: "map_of (captures mt) 1 = Some w" "group_strip mt = Inr (strip w)" by blast
    have "grp_inv starts_visible 1 (captures mt)"
    proof (rule search_grp_all[where Q = "visible_first u IGNORECASE" and P = starts_visible
          and f = IGNORECASE])
      show "search u IGNORECASE p text = Some mt" by (rule Some)
      show "grp_all (visible_first u IGNORECASE) 1 p" by (rule p(2))
    qed (rule visible_first_sound)
    with w(1) have "starts_visible w" by (simp add: grp_inv_def)
    then have "sub u no_flags spaces (ascii '' '') (strip w) \<noteq> []"
      by (intro sub_nonempty strip_visible) (simp_all add: ascii_def)
    with Some w(2) show ?thesis
      by (simp add: and_then_def Let_def upd_set nonempty_def)
  qed
qed

lemma caseless_space: "is_space x \<Longrightarrow> set (caseless x) \<subseteq> {x}"
proof -
  assume s: "is_space x"
  show ?thesis
  proof (cases "x < 128")
    case True
    with is_space_ascii[OF s] have "x \<le> 32" by simp
    then have "ascii_lower x = x" "ascii_upper x = x"
      by (simp_all add: ascii_lower_def ascii_upper_def in_range_def)
    with True show ?thesis by (simp add: caseless_def)
  next
    case False
    from s have "x \<noteq> 0x130" "x \<noteq> 0x131" "x \<noteq> 0x17F" "x \<noteq> 0x212A"
      by (auto simp: is_space_def)
    with False show ?thesis by (simp add: caseless_def)
  qed
qed

lemma chr_eq_space: "chr_eq f c x \<Longrightarrow> is_space x \<Longrightarrow> x = of_char c"
  using caseless_space[of x] by (auto simp: chr_eq_def)

lemma visible_B: "chr_eq f CHR ''B'' x \<Longrightarrow> \<not> is_space x"
  using chr_eq_space[of f "CHR ''B''" x] by (auto simp: is_space_def)

lemma visible_M: "chr_eq f CHR ''M'' x \<Longrightarrow> \<not> is_space x"
  using chr_eq_space[of f "CHR ''M''" x] by (auto simp: is_space_def)

lemma visible_P: "chr_eq f CHR ''P'' x \<Longrightarrow> \<not> is_space x"
  using chr_eq_space[of f "CHR ''P''" x] by (auto simp: is_space_def)

lemma grp_all_nogroups: "count_groups r = 0 \<Longrightarrow> grp_all Q g r"
  by (induction r) auto

lemma count_groups_atoms [simp]:
  "count_groups Space = 0" "count_groups Digit = 0" "count_groups NotNL = 0"
  "count_groups upper_AZ = 0" "count_groups lower_az = 0"
  by (simp_all add: Space_def Digit_def NotNL_def upper_AZ_def lower_az_def)

lemma count_groups_reps [simp]:
  "count_groups (Star r) = count_groups r" "count_groups (Plus r) = count_groups r"
  "count_groups (Opt r) = count_groups r" "count_groups (StarLazy r) = count_groups r"
  "count_groups (PlusLazy r) = count_groups r" "count_groups (Times n r) = count_groups r"
  by (simp_all add: Star_def Plus_def Opt_def StarLazy_def PlusLazy_def Times_def)

lemma count_groups_degree_stop: "count_groups degree_stop = 0"
  by (simp add: degree_stop_def count_groups_lits)

lemma count_groups_degree_field: "count_groups degree_field = 0"
  by (simp add: degree_field_def count_groups_lits)

lemma visible_first_Cat_lits:
  "(\<And>x. chr_eq f c x \<Longrightarrow> \<not> is_space x) \<Longrightarrow> visible_first u f (Cat (lits (c # cs)) r)"
  by (simp add: visible_first_def minlen_lits firstok_lits)

lemma visible_first_Cat_Lit:
  "(\<And>x. chr_eq f c x \<Longrightarrow> \<not> is_space x) \<Longrightarrow> visible_first u f (Cat (Lit c) r)"
  by (simp add: visible_first_def)

lemma visible_first_lits:
  "(\<And>x. chr_eq f c x \<Longrightarrow> \<not> is_space x) \<Longrightarrow> visible_first u f (lits (c # cs))"
  by (simp add: visible_first_def minlen_lits firstok_lits)

lemma visible_first_Alt:
  "visible_first u f a \<Longrightarrow> visible_first u f b \<Longrightarrow> visible_first u f (Alt a b)"
  by (auto simp: visible_first_def)

lemma degree_of_sets: "sets_group 1 (degree_of title)"
  by (simp add: degree_of_def)

lemma degree_of_visible:
  assumes "\<And>x. chr_eq IGNORECASE c x \<Longrightarrow> \<not> is_space x"
  shows "grp_all (visible_first u IGNORECASE) 1 (degree_of (c # cs))"
proof -
  have v: "\<And>r. visible_first u IGNORECASE (Cat (lits (c # cs)) r)"
    by (rule visible_first_Cat_lits) (rule assms)
  show ?thesis
    by (simp add: degree_of_def v grp_all_nogroups count_groups_lits count_groups_degree_stop
        count_groups_degree_field)
qed

lemma degree_short_ok:
  "sets_group 1 degree_short \<and> grp_all (visible_first u IGNORECASE) 1 degree_short"
proof -
  have B: "\<And>r. visible_first u IGNORECASE (Cat (Lit CHR ''B'') r)"
    by (rule visible_first_Cat_Lit) (rule visible_B)
  have M: "\<And>r. visible_first u IGNORECASE (Cat (Lit CHR ''M'') r)"
    by (rule visible_first_Cat_Lit) (rule visible_M)
  have P: "visible_first u IGNORECASE (lits ''PhD'')"
    by (rule visible_first_lits) (rule visible_P)
  have n: "count_groups dot = 0" by (simp add: dot_def)
  show ?thesis
    by (simp add: degree_short_def B M P n visible_first_Alt grp_all_nogroups count_groups_lits
        count_groups_degree_stop)
qed

lemma degree_patterns_ok:
  "\<forall>p\<in>set degree_patterns. sets_group 1 p \<and> grp_all (visible_first u IGNORECASE) 1 p"
  using degree_of_sets degree_of_visible[OF visible_B] degree_of_visible[OF visible_M]
    degree_short_ok
  by (simp add: degree_patterns_def)

lemma nonnull_sound: "nonnull r \<Longrightarrow> s' \<in> set (matches u f r s) \<Longrightarrow> consumed s s' \<noteq> []"
proof -
  assume "nonnull r" "s' \<in> set (matches u f r s)"
  then obtain x xs where "consumed s s' = x # xs"
    using consumed_first by (fastforce simp: nonnull_def)
  then show ?thesis by simp
qed

lemma fmt_pair_nonempty: "fmt g1 @ ascii '' / '' @ fmt g2 \<noteq> []"
  by (simp add: ascii_def)

lemma cgpa_loop_upd:
  "\<forall>p\<in>set ps. sets_group 1 p \<and> grp_all nonnull 1 p \<Longrightarrow>
   \<exists>d'. cgpa_loop u ps text d = Inr d' \<and> upd ''cgpa'' field_ok d d'"
proof (induction ps)
  case Nil
  show ?case by (simp add: upd_refl)
next
  case (Cons p ps)
  from Cons.prems have ih: "\<exists>d'. cgpa_loop u ps text d = Inr d' \<and> upd ''cgpa'' field_ok d d'"
    by (intro Cons.IH) simp
  show ?case
  proof (cases "search u IGNORECASE p text")
    case None
    with ih show ?thesis by simp
  next
    case (Some mt)
    from Cons.prems have p: "sets_group 1 p" "grp_all nonnull 1 p" by simp_all
    from sets_group_count[OF p(1)] search_ngroups[OF Some] have n: "1 \<le> ngroups mt" by simp
    then have g1: "group mt 1 = Inr (map_of (captures mt) 1)" by (simp add: group_def)
    have "grp_inv (\<lambda>w. w \<noteq> []) 1 (captures mt)"
    proof (rule search_grp_all[where Q = nonnull and P = "\<lambda>w. w \<noteq> []" and f = IGNORECASE])
      show "search u IGNORECASE p text = Some mt" by (rule Some)
      show "grp_all nonnull 1 p" by (rule p(2))
    qed (rule nonnull_sound)
    then have ok1: "field_ok (map_of (captures mt) 1)"
      by (simp add: grp_inv_def field_ok_def split: option.splits)
    have ok2: "field_ok (Some (fmt a @ ascii '' / '' @ fmt b))" for a b
      by (simp add: field_ok_def ascii_def)
    show ?thesis
    proof (cases "2 \<le> ngroups mt")
      case True
      then have g2: "group mt 2 = Inr (map_of (captures mt) 2)" by (simp add: group_def)
      from Some True g1 g2 ok1 ok2 show ?thesis
        by (simp add: and_then_def upd_set)
    next
      case False
      with Some g1 ok1 show ?thesis by (simp add: and_then_def upd_set)
    qed
  qed
qed

lemma grp_all_atoms [simp]:
  "grp_all Q g Space" "grp_all Q g Digit" "grp_all Q g NotNL" "grp_all Q g upper_AZ"
  "grp_all Q g lower_az"
  by (simp_all add: grp_all_nogroups)

lemma grp_all_reps [simp]:
  "grp_all Q g (Star r) = grp_all Q g r" "grp_all Q g (Plus r) = grp_all Q g r"
  "grp_all Q g (Opt r) = grp_all Q g r"
  by (simp_all add: Star_def Plus_def Opt_def)

lemma count_groups_number: "count_groups number = 0"
  by (simp add: number_def)

lemma nonnull_number: "nonnull number"
  by (simp add: nonnull_def number_def Plus_def minlen_Digit)

lemma count_groups_colon: "count_groups colon_or_dash = 0"
  by (simp add: colon_or_dash_def)

lemma cgpa_patterns_ok: "\<forall>p\<in>set cgpa_patterns. sets_group 1 p \<and> grp_all nonnull 1 p"
  by (simp add: cgpa_patterns_def nonnull_number grp_all_nogroups count_groups_number
      count_groups_colon count_groups_lits)

lemma upd_all_ok: "upd k V d d' \<Longrightarrow> (\<And>v. V v \<Longrightarrow> field_ok v) \<Longrightarrow> all_ok d \<Longrightarrow> all_ok d'"
  by (auto simp: upd_def all_ok_def dict_get_set split: if_splits)

lemma field_ok_nonempty: "nonempty v \<Longrightarrow> field_ok v"
  by (auto simp: nonempty_def field_ok_def)

lemma field_ok_cleaned: "cleaned v \<Longrightarrow> field_ok v"
  by (auto simp: cleaned_def field_ok_def)

lemma field_ok_college: "college_ok v \<Longrightarrow> field_ok v"
  by (auto simp: college_ok_def field_ok_def)

lemma init_keys:
  "dict_keys init_details = [''name'', ''email'', ''phone'', ''college'', ''degree'', ''cgpa'']"
  by (simp add: dict_keys_def init_details_def)

lemma init_get: "k \<in> set (dict_keys init_details) \<Longrightarrow> dict_get init_details k = Inr None"
  by (auto simp: dict_keys_def init_details_def dict_get_def)

lemma all_ok_init: "all_ok init_details"
  by (auto simp: all_ok_def init_details_def dict_get_def field_ok_def split: if_splits)

lemma combine_loop_candidates:
  "(case combine_loop ps names cur (end' q) of (a, b) \<Rightarrow> a @ [b]) = names @ candidates_from cur q ps"
  by (induction ps arbitrary: names cur q) simp_all

lemma join_snoc: "ws \<noteq> [] \<Longrightarrow> join sep (ws @ [w]) = join sep ws @ sep @ w"
  by (induction sep ws rule: join.induct) simp_all

lemma merge_runs_nonempty: "merge_runs (p # ps) \<noteq> []"
  by (cases ps) simp_all

lemma candidates_from_runs:
  "candidates_from (candidate (acc @ [q])) q ps =
   map candidate ((acc @ hd (merge_runs (q # ps))) # tl (merge_runs (q # ps)))"
proof (induction ps arbitrary: acc q)
  case Nil
  show ?case by simp
next
  case (Cons p ps)
  let ?R = "merge_runs (p # ps)"
  have R: "hd ?R # tl ?R = ?R" by (simp add: merge_runs_nonempty)
  show ?case
  proof (cases "start p - end' q \<le> 5")
    case True
    have "join (ascii '' '') (map word (acc @ [q]) @ [word p])
          = join (ascii '' '') (map word (acc @ [q])) @ ascii '' '' @ word p"
      by (rule join_snoc) simp
    then have "candidate (acc @ [q]) @ ascii '' '' @ word p = candidate ((acc @ [q]) @ [p])"
      unfolding candidate_def by simp
    with True Cons.IH[of "acc @ [q]" p] show ?thesis by simp
  next
    case False
    have "word p = candidate ([] @ [p])" by (simp add: candidate_def)
    with False Cons.IH[of "[]" p] R show ?thesis by simp
  qed
qed

lemma collect_persons_filter:
  "collect_persons entities acc =
   acc @ map to_person (filter (\<lambda>ent. entity_group ent = ''PER'' \<and> score ent > 0.75) entities)"
  by (induction entities arbitrary: acc) (simp_all add: to_person_def)

lemma init_name: "dict_get init_details ''name'' = Inr None"
  by (simp add: init_get init_keys)

lemma after_primary_upd:
  "\<exists>d2. upd ''name'' cleaned d2 (after_primary u pl text) \<and> dict_get d2 ''name'' = Inr None
        \<and> dict_keys d2 = dict_keys init_details \<and> all_ok d2"
proof -
  let ?d1 = "extract_email u text init_details"
  let ?d2 = "phone_loop u phone_patterns text ?d1"
  have u1: "upd ''email'' nonempty init_details ?d1" by (rule extract_email_upd)
  have u2: "upd ''phone'' nonempty ?d1 ?d2" by (rule phone_loop_upd) simp
  have k1: "dict_keys ?d1 = dict_keys init_details"
    by (rule upd_keys[OF u1]) (simp add: init_keys)
  have k2: "dict_keys ?d2 = dict_keys init_details"
    using upd_keys[OF u2] k1 by (simp add: init_keys)
  have "dict_get ?d2 ''name'' = Inr None"
    using upd_get_other[OF u2, of "''name''"] upd_get_other[OF u1, of "''name''"] init_name
    by simp
  moreover have "all_ok ?d2"
    using upd_all_ok[OF u2 field_ok_nonempty] upd_all_ok[OF u1 field_ok_nonempty] all_ok_init
    by blast
  moreover have "upd ''name'' cleaned ?d2 (after_primary u pl text)"
    unfolding after_primary_def by (rule ner_name_upd)
  ultimately show ?thesis using k2 by blast
qed

lemma after_primary_name:
  "\<exists>v. dict_get (after_primary u pl text) ''name'' = Inr v \<and> cleaned v"
proof -
  from after_primary_upd obtain d2 where
    "upd ''name'' cleaned d2 (after_primary u pl text)" "dict_get d2 ''name'' = Inr None"
    by blast
  from upd_get[OF this] show ?thesis by (auto simp: cleaned_def)
qed

lemma after_primary_keys: "dict_keys (after_primary u pl text) = dict_keys init_details"
proof -
  from after_primary_upd obtain d2 where
    "upd ''name'' cleaned d2 (after_primary u pl text)" "dict_keys d2 = dict_keys init_details"
    by blast
  with upd_keys[of "''name''" cleaned d2] show ?thesis by (simp add: init_keys)
qed

lemma after_fallback1_name:
  "\<exists>d4 v. after_fallback1 u pl text = Inr d4 \<and> dict_get d4 ''name'' = Inr v \<and> cleaned v
          \<and> dict_keys d4 = dict_keys init_details"
proof -
  have k: "''name'' \<in> set (dict_keys (after_primary u pl text))"
    by (simp add: after_primary_keys init_keys)
  from fallback1_upd[OF k] obtain d4 where
    d4: "fallback1 u text (after_primary u pl text) = Inr d4"
        "upd ''name'' cleaned (after_primary u pl text) d4" by blast
  from after_primary_name obtain v0 where
    v0: "dict_get (after_primary u pl text) ''name'' = Inr v0" "cleaned v0" by blast
  from upd_get[OF d4(2) v0(1)] v0(2) obtain v where
    "dict_get d4 ''name'' = Inr v" "cleaned v" by blast
  moreover have "dict_keys d4 = dict_keys init_details"
    using upd_keys[OF d4(2) k] by (simp add: after_primary_keys)
  ultimately show ?thesis using d4(1) by (auto simp: after_fallback1_def)
qed

lemma phone_loop_first:
  "phone_loop u ps text d =
   (case first_match u no_flags ps text of
      None \<Rightarrow> d
    | Some m \<Rightarrow> dict_set ''phone'' (Some (filter (\<lambda>c. \<not> separator c) (matched m))) d)"
  by (induction ps) (simp_all add: sub_phone_strip separator_def split: option.splits)

lemma first_match_none: "no_match u f ps text \<Longrightarrow> first_match u f ps text = None"
  by (induction ps) (simp_all add: no_match_def)

lemma college_loop_none: "no_match u IGNORECASE ps text \<Longrightarrow> college_loop u ps text d = Inr d"
  by (induction ps) (simp_all add: no_match_def)

lemma degree_loop_none: "no_match u IGNORECASE ps text \<Longrightarrow> degree_loop u ps text d = Inr d"
  by (induction ps) (simp_all add: no_match_def)

lemma cgpa_loop_none: "no_match u IGNORECASE ps text \<Longrightarrow> cgpa_loop u ps text d = Inr d"
  by (induction ps) (simp_all add: no_match_def)

lemma extract_summary:
  "\<exists>d. extract_details_huggingface u pl text sn = Inr d
      \<and> dict_keys d = dict_keys init_details \<and> all_ok d
      \<and> dict_get d ''email'' = Inr (map_option matched (search u no_flags email_pattern text))
      \<and> dict_get d ''phone'' =
          Inr (map_option (\<lambda>m. filter (\<lambda>c. \<not> separator c) (matched m))
                 (first_match u no_flags phone_patterns text))
      \<and> (\<exists>n. dict_get d ''name'' = Inr n \<and> cleaned n
            \<and> ((\<forall>d0. ner_name u pl text d0 = d0)
                 \<and> (\<forall>d0. line_loop u (take 5 (split_on newline text)) d0 = d0)
                 \<and> search u MULTILINE name_pattern text = None \<longrightarrow> n = None))
      \<and> (\<exists>c. dict_get d ''college'' = Inr c \<and> (c = None \<or> college_ok c)
            \<and> (no_match u IGNORECASE college_patterns text \<longrightarrow> c = None))
      \<and> (\<exists>g. dict_get d ''degree'' = Inr g
            \<and> (no_match u IGNORECASE degree_patterns text \<longrightarrow> g = None))
      \<and> (\<exists>g. dict_get d ''cgpa'' = Inr g
            \<and> (no_match u IGNORECASE cgpa_patterns text \<longrightarrow> g = None))"
proof -
  define d1 where d1: "d1 = extract_email u text init_details"
  define d2 where d2: "d2 = phone_loop u phone_patterns text d1"
  define d3 where d3: "d3 = ner_name u pl text d2"
  have u1: "upd ''email'' nonempty init_details d1"
    unfolding d1 by (rule extract_email_upd)
  have u2: "upd ''phone'' nonempty d1 d2"
    unfolding d2 by (rule phone_loop_upd) simp
  have u3: "upd ''name'' cleaned d2 d3"
    unfolding d3 by (rule ner_name_upd)
  have k1: "dict_keys d1 = dict_keys init_details"
    using upd_keys[OF u1] by (simp add: init_keys)
  have k2: "dict_keys d2 = dict_keys init_details"
    using upd_keys[OF u2] k1 by (simp add: init_keys)
  have k3: "dict_keys d3 = dict_keys init_details"
    using upd_keys[OF u3] k2 by (simp add: init_keys)
  from k3 have "''name'' \<in> set (dict_keys d3)" by (simp add: init_keys)
  from fallback1_upd[OF this] obtain d4 where
    s4: "fallback1 u text d3 = Inr d4" and u4: "upd ''name'' cleaned d3 d4" by blast
  have "dict_keys d4 = dict_keys init_details"
    using upd_keys[OF u4] k3 by (simp add: init_keys)
  then have "''name'' \<in> set (dict_keys d4)" by (simp add: init_keys)
  from fallback2_upd[OF this] obtain d5 where
    s5: "fallback2 u text d4 = Inr d5" and u5: "upd ''name'' cleaned d4 d5" by blast
  from college_loop_upd[OF college_patterns_group] obtain d6 where
    s6: "college_loop u college_patterns text d5 = Inr d6" and
    u6: "upd ''college'' college_ok d5 d6"
    by blast
  from degree_loop_upd[OF degree_patterns_ok] obtain d7 where
    s7: "degree_loop u degree_patterns text d6 = Inr d7" and u7: "upd ''degree'' nonempty d6 d7"
    by blast
  from cgpa_loop_upd[OF cgpa_patterns_ok] obtain d8 where
    s8: "cgpa_loop u cgpa_patterns text d7 = Inr d8" and u8: "upd ''cgpa'' field_ok d7 d8"
    by blast
  have r: "extract_details_huggingface u pl text sn = Inr d8"
    using s4 s5 s6 s7 s8
    by (simp add: extract_details_huggingface_def Let_def and_then_def d1 d2 d3)
  note e1 = upd_get_other[OF u1] and e2 = upd_get_other[OF u2] and e3 = upd_get_other[OF u3]
    and e4 = upd_get_other[OF u4] and e5 = upd_get_other[OF u5] and e6 = upd_get_other[OF u6]
    and e7 = upd_get_other[OF u7] and e8 = upd_get_other[OF u8]
  have k4: "dict_keys d4 = dict_keys init_details"
    using upd_keys[OF u4] k3 by (simp add: init_keys)
  have k5: "dict_keys d5 = dict_keys init_details"
    using upd_keys[OF u5] k4 by (simp add: init_keys)
  have k6: "dict_keys d6 = dict_keys init_details"
    using upd_keys[OF u6] k5 by (simp add: init_keys)
  have k7: "dict_keys d7 = dict_keys init_details"
    using upd_keys[OF u7] k6 by (simp add: init_keys)
  have k8: "dict_keys d8 = dict_keys init_details"
    using upd_keys[OF u8] k7 by (simp add: init_keys)
  have a1: "all_ok d1" using upd_all_ok[OF u1 field_ok_nonempty all_ok_init] .
  have a2: "all_ok d2" using upd_all_ok[OF u2 field_ok_nonempty a1] .
  have a3: "all_ok d3" using upd_all_ok[OF u3 field_ok_cleaned a2] .
  have a4: "all_ok d4" using upd_all_ok[OF u4 field_ok_cleaned a3] .
  have a5: "all_ok d5" using upd_all_ok[OF u5 field_ok_cleaned a4] .
  have a6: "all_ok d6" using upd_all_ok[OF u6 field_ok_college a5] .
  have a7: "all_ok d7" using upd_all_ok[OF u7 field_ok_nonempty a6] .
  have a8: "all_ok d8" using upd_all_ok[OF u8 _ a7] by simp
  have email: "dict_get d8 ''email'' = Inr (map_option matched (search u no_flags email_pattern text))"
    by (simp add: e8 e7 e6 e5 e4 e3 e2 d1 extract_email_def dict_get_set init_get init_keys
        split: option.splits)
  have "dict_get d1 ''phone'' = Inr None"
    by (simp add: e1 init_get init_keys)
  then have phone: "dict_get d8 ''phone'' =
      Inr (map_option (\<lambda>m. filter (\<lambda>c. \<not> separator c) (matched m))
             (first_match u no_flags phone_patterns text))"
    by (simp add: e8 e7 e6 e5 e4 e3 d2 phone_loop_first dict_get_set split: option.splits)
  have n2: "dict_get d2 ''name'' = Inr None"
    by (simp add: e2 e1 init_get init_keys)
  from upd_get[OF u3 n2] obtain n3 where n3: "dict_get d3 ''name'' = Inr n3" "cleaned n3"
    by (auto simp: cleaned_def)
  from upd_get[OF u4 n3(1)] n3(2) obtain n4 where n4: "dict_get d4 ''name'' = Inr n4" "cleaned n4"
    by blast
  from upd_get[OF u5 n4(1)] n4(2) obtain n5 where n5: "dict_get d5 ''name'' = Inr n5" "cleaned n5"
    by blast
  have n8: "dict_get d8 ''name'' = Inr n5"
    by (simp add: e8 e7 e6 n5)
  have nn: "n5 = None"
    if h: "(\<forall>d0. ner_name u pl text d0 = d0)
           \<and> (\<forall>d0. line_loop u (take 5 (split_on newline text)) d0 = d0)
           \<and> search u MULTILINE name_pattern text = None"
  proof -
    from h d3 have "d3 = d2" by simp
    with n2 s4 h have "d4 = d2"
      by (simp add: fallback1_def and_then_def name_missing_def)
    with n2 s5 h have "d5 = d2"
      by (simp add: fallback2_def and_then_def name_missing_def)
    with n2 n5 show ?thesis by simp
  qed
  have c5: "dict_get d5 ''college'' = Inr None"
    by (simp add: e5 e4 e3 e2 e1 init_get init_keys)
  from upd_get[OF u6 c5] obtain c where c: "dict_get d6 ''college'' = Inr c" "c = None \<or> college_ok c"
    by blast
  have c8: "dict_get d8 ''college'' = Inr c"
    by (simp add: e8 e7 c)
  have cn: "c = None" if "no_match u IGNORECASE college_patterns text"
    using college_loop_none[OF that, of d5] s6 c5 c by simp
  have g6: "dict_get d6 ''degree'' = Inr None"
    by (simp add: e6 e5 e4 e3 e2 e1 init_get init_keys)
  from upd_get[OF u7 g6] obtain g where g: "dict_get d7 ''degree'' = Inr g" by blast
  have g8: "dict_get d8 ''degree'' = Inr g"
    by (simp add: e8 g)
  have gn: "g = None" if "no_match u IGNORECASE degree_patterns text"
    using degree_loop_none[OF that, of d6] s7 g6 g by simp
  have p7: "dict_get d7 ''cgpa'' = Inr None"
    by (simp add: e7 e6 e5 e4 e3 e2 e1 init_get init_keys)
  from upd_get[OF u8 p7] obtain q where q: "dict_get d8 ''cgpa'' = Inr q" by blast
  have qn: "q = None" if "no_match u IGNORECASE cgpa_patterns text"
    using cgpa_loop_none[OF that, of d7] s8 p7 q by simp
  show ?thesis
  proof (intro exI[of _ d8] conjI)
    show "\<exists>n. dict_get d8 ''name'' = Inr n \<and> cleaned n
            \<and> ((\<forall>d0. ner_name u pl text d0 = d0)
                 \<and> (\<forall>d0. line_loop u (take 5 (split_on newline text)) d0 = d0)
                 \<and> search u MULTILINE name_pattern text = None \<longrightarrow> n = None)"
      using n8 n5(2) nn by blast
    show "\<exists>c. dict_get d8 ''college'' = Inr c \<and> (c = None \<or> college_ok c)
            \<and> (no_match u IGNORECASE college_patterns text \<longrightarrow> c = None)"
      using c8 c(2) cn by blast
    show "\<exists>g. dict_get d8 ''degree'' = Inr g
            \<and> (no_match u IGNORECASE degree_patterns text \<longrightarrow> g = None)"
      using g8 gn by blast
    show "\<exists>g. dict_get d8 ''cgpa'' = Inr g
            \<and> (no_match u IGNORECASE cgpa_patterns text \<longrightarrow> g = None)"
      using q qn by blast
  qed (rule r k8 a8 email phone)+
qed

lemma strip_length: "length (strip w) \<le> length w"
proof -
  have "length (strip w) \<le> length (dropWhile is_space w)"
    using length_dropWhile_le[of is_space "rev (dropWhile is_space w)"] by (simp add: strip_def)
  also have "\<dots> \<le> length w" by (rule length_dropWhile_le)
  finally show ?thesis .
qed

lemma clean_college_length: "length (clean_college u w) \<le> length w"
proof -
  let ?a = "sub u no_flags spaces (ascii '' '') w"
  let ?b = "sub u no_flags year_range [] ?a"
  let ?c = "sub u no_flags year_present [] ?b"
  let ?d = "sub u IGNORECASE education_label [] ?c"
  have "length ?a \<le> length w"
    by (rule sub_length) (simp add: spaces_def Plus_def Space_def ascii_def)
  moreover have "length ?b \<le> length ?a" by (rule sub_length) simp
  moreover have "length ?c \<le> length ?b" by (rule sub_length) simp
  moreover have "length ?d \<le> length ?c" by (rule sub_length) simp
  moreover have "length (strip ?d) \<le> length ?d" by (rule strip_length)
  ultimately show ?thesis by (simp add: clean_college_def Let_def)
qed

lemma short_abbr_sound:
  "short_abbr r \<Longrightarrow> s' \<in> set (matches u f r s)
   \<Longrightarrow> 3 \<le> length (consumed s s') \<and> length (consumed s s') \<le> 4"
proof -
  assume a: "short_abbr r" and m: "s' \<in> set (matches u f r s)"
  from a obtain n where n: "maxlen r = Some n" "n \<le> 4" "3 \<le> minlen r"
    by (auto simp: short_abbr_def split: option.splits)
  from matches_maxlen[OF n(1) m] matches_minlen[OF m] n(2,3) consumed_length[OF m]
  show ?thesis by arith
qed

lemma short_abbr_institute: "short_abbr institute_abbr"
  by (simp add: short_abbr_def institute_abbr_def minlen_lits maxlen_lits)

lemma pattern5_group_all: "grp_all short_abbr 1 college_pattern5"
  using short_abbr_institute
  by (simp add: college_pattern5_def grp_all_nogroups count_groups_lits institute_abbr_def)

lemma pattern5_sets_group: "sets_group 1 college_pattern5"
  by (simp add: college_pattern5_def)

lemma pattern5_group:
  assumes "search u f college_pattern5 tx = Some mt"
  shows "\<exists>w. group mt 1 = Inr (Some w) \<and> group_strip mt = Inr (strip w)
             \<and> 3 \<le> length w \<and> length w \<le> 4"
proof -
  from group_strip_ok[OF assms pattern5_sets_group] obtain w where
    w: "map_of (captures mt) 1 = Some w" "group_strip mt = Inr (strip w)" by blast
  have "grp_inv (\<lambda>w. 3 \<le> length w \<and> length w \<le> 4) 1 (captures mt)"
  proof (rule search_grp_all[where Q = short_abbr and P = "\<lambda>w. 3 \<le> length w \<and> length w \<le> 4"
        and f = f])
    show "search u f college_pattern5 tx = Some mt" by (rule assms)
    show "grp_all short_abbr 1 college_pattern5" by (rule pattern5_group_all)
  qed (rule short_abbr_sound)
  with w(1) have len: "3 \<le> length w \<and> length w \<le> 4" by (simp add: grp_inv_def)
  from sets_group_count[OF pattern5_sets_group] search_ngroups[OF assms]
  have "1 \<le> ngroups mt" by simp
  with w(1) have "group mt 1 = Inr (Some w)" by (simp add: group_def)
  with w(2) len show ?thesis by blast
qed

lemma pattern5_rejected:
  assumes "search u f college_pattern5 tx = Some mt"
  shows "\<exists>w. group_strip mt = Inr w \<and> length (clean_college u w) < 5"
proof -
  from pattern5_group[OF assms] obtain w where
    w: "group_strip mt = Inr (strip w)" "length w \<le> 4" by blast
  have "length (clean_college u (strip w)) \<le> length (strip w)" by (rule clean_college_length)
  also have "\<dots> \<le> length w" by (rule strip_length)
  finally have "length (clean_college u (strip w)) < 5" using w(2) by simp
  with w(1) show ?thesis by blast
qed

lemma college_loop_pattern5: "college_loop u [college_pattern5] text d = Inr d"
proof (cases "search u IGNORECASE college_pattern5 text")
  case None
  then show ?thesis by simp
next
  case (Some mt)
  from pattern5_rejected[OF Some] obtain w where
    "group_strip mt = Inr w" "length (clean_college u w) < 5" by blast
  with Some show ?thesis by (simp add: and_then_def Let_def)
qed

lemma college_loop_snoc5:
  "college_loop u (ps @ [college_pattern5]) text d = college_loop u ps text d"
proof (induction ps)
  case Nil
  show ?case using college_loop_pattern5 by simp
next
  case (Cons p ps)
  show ?case
  proof (cases "search u IGNORECASE p text")
    case None
    with Cons.IH show ?thesis by simp
  next
    case (Some mt)
    show ?thesis
    proof (cases "group_strip mt")
      case (Inl e)
      with Some show ?thesis by (simp add: and_then_def)
    next
      case (Inr w)
      with Some Cons.IH show ?thesis by (simp add: and_then_def Let_def)
    qed
  qed
qed

lemma college_loop_offers:
  "\<forall>p\<in>set ps. sets_group 1 p \<Longrightarrow>
   college_loop u ps text d =
   Inr (case find in_bounds (college_offers u ps text) of
          None \<Rightarrow> d
        | Some s \<Rightarrow> dict_set ''college'' (Some s) d)"
proof (induction ps)
  case Nil
  show ?case by simp
next
  case (Cons p ps)
  from Cons.prems have ih: "college_loop u ps text d =
      Inr (case find in_bounds (college_offers u ps text) of
             None \<Rightarrow> d | Some s \<Rightarrow> dict_set ''college'' (Some s) d)"
    by (intro Cons.IH) simp
  show ?case
  proof (cases "search u IGNORECASE p text")
    case None
    with ih show ?thesis by simp
  next
    case (Some mt)
    from Cons.prems have p: "sets_group 1 p" by simp
    from group_strip_ok[OF Some p] obtain w where
      w: "map_of (captures mt) 1 = Some w" "group_strip mt = Inr (strip w)" by blast
    from sets_group_count[OF p] search_ngroups[OF Some] have "1 \<le> ngroups mt" by simp
    with w(1) have g: "group mt 1 = Inr (Some w)" by (simp add: group_def)
    show ?thesis
    proof (cases "in_bounds (clean_college u (strip w))")
      case True
      then have "5 \<le> length (clean_college u (strip w)) \<and> length (clean_college u (strip w)) \<le> 150"
        by (simp add: in_bounds_def)
      with True Some w(2) g show ?thesis by (simp add: and_then_def Let_def)
    next
      case False
      then have "\<not> (5 \<le> length (clean_college u (strip w)) \<and> length (clean_college u (strip w)) \<le> 150)"
        by (simp add: in_bounds_def)
      with False Some w(2) g ih show ?thesis by (auto simp: and_then_def Let_def)
    qed
  qed
qed

lemma find_in_bounds:
  "find in_bounds xs = None \<or> (\<exists>s. find in_bounds xs = Some s \<and> 5 \<le> length s \<and> length s \<le> 150)"
  by (cases "find in_bounds xs") (auto simp: find_Some_iff in_bounds_def)

lemma extract_college:
  "\<exists>d. extract_details_huggingface u pl text sn = Inr d
      \<and> dict_get d ''college'' = Inr (find in_bounds (college_offers u college_patterns text))"
proof -
  define d1 where d1: "d1 = extract_email u text init_details"
  define d2 where d2: "d2 = phone_loop u phone_patterns text d1"
  define d3 where d3: "d3 = ner_name u pl text d2"
  have u1: "upd ''email'' nonempty init_details d1"
    unfolding d1 by (rule extract_email_upd)
  have u2: "upd ''phone'' nonempty d1 d2"
    unfolding d2 by (rule phone_loop_upd) simp
  have u3: "upd ''name'' cleaned d2 d3"
    unfolding d3 by (rule ner_name_upd)
  have k1: "dict_keys d1 = dict_keys init_details"
    using upd_keys[OF u1] by (simp add: init_keys)
  have k2: "dict_keys d2 = dict_keys init_details"
    using upd_keys[OF u2] k1 by (simp add: init_keys)
  have k3: "dict_keys d3 = dict_keys init_details"
    using upd_keys[OF u3] k2 by (simp add: init_keys)
  from k3 have "''name'' \<in> set (dict_keys d3)" by (simp add: init_keys)
  from fallback1_upd[OF this] obtain d4 where
    s4: "fallback1 u text d3 = Inr d4" and u4: "upd ''name'' cleaned d3 d4" by blast
  have "dict_keys d4 = dict_keys init_details"
    using upd_keys[OF u4] k3 by (simp add: init_keys)
  then have "''name'' \<in> set (dict_keys d4)" by (simp add: init_keys)
  from fallback2_upd[OF this] obtain d5 where
    s5: "fallback2 u text d4 = Inr d5" and u5: "upd ''name'' cleaned d4 d5" by blast
  define d6 where d6: "d6 = (case find in_bounds (college_offers u college_patterns text) of
                               None \<Rightarrow> d5 | Some s \<Rightarrow> dict_set ''college'' (Some s) d5)"
  have s6: "college_loop u college_patterns text d5 = Inr d6"
    unfolding d6 by (rule college_loop_offers) (rule college_patterns_group)
  from degree_loop_upd[OF degree_patterns_ok] obtain d7 where
    s7: "degree_loop u degree_patterns text d6 = Inr d7" and u7: "upd ''degree'' nonempty d6 d7"
    by blast
  from cgpa_loop_upd[OF cgpa_patterns_ok] obtain d8 where
    s8: "cgpa_loop u cgpa_patterns text d7 = Inr d8" and u8: "upd ''cgpa'' field_ok d7 d8"
    by blast
  have r: "extract_details_huggingface u pl text sn = Inr d8"
    using s4 s5 s6 s7 s8
    by (simp add: extract_details_huggingface_def Let_def and_then_def d1 d2 d3)
  have c5: "dict_get d5 ''college'' = Inr None"
    by (simp add: upd_get_other[OF u5] upd_get_other[OF u4] upd_get_other[OF u3]
        upd_get_other[OF u2] upd_get_other[OF u1] init_get init_keys)
  have "dict_get d6 ''college'' = Inr (find in_bounds (college_offers u college_patterns text))"
    using c5 by (simp add: d6 dict_get_set split: option.splits)
  then have "dict_get d8 ''college'' = Inr (find in_bounds (college_offers u college_patterns text))"
    by (simp add: upd_get_other[OF u8] upd_get_other[OF u7])
  with r show ?thesis by blast
qed

lemma stage2_name:
  "dict_get (phone_loop u phone_patterns text (extract_email u text init_details)) ''name''
   = Inr None"
proof -
  have u1: "upd ''email'' nonempty init_details (extract_email u text init_details)"
    by (rule extract_email_upd)
  have u2: "upd ''phone'' nonempty (extract_email u text init_details)
              (phone_loop u phone_patterns text (extract_email u text init_details))"
    by (rule phone_loop_upd) simp
  show ?thesis
    by (simp add: upd_get_other[OF u2] upd_get_other[OF u1] init_name)
qed

lemma six_fields:
  assumes k: "dict_keys d = dict_keys init_details" and a: "all_ok d"
  shows "\<exists>n e p c g q.
           d = [(''name'', n), (''email'', e), (''phone'', p), (''college'', c), (''degree'', g),
                (''cgpa'', q)]
           \<and> n \<noteq> Some [] \<and> e \<noteq> Some [] \<and> p \<noteq> Some [] \<and> c \<noteq> Some [] \<and> g \<noteq> Some []
           \<and> q \<noteq> Some []"
proof -
  from k obtain n e p c g q where
    d: "d = [(''name'', n), (''email'', e), (''phone'', p), (''college'', c), (''degree'', g),
             (''cgpa'', q)]"
    by (auto simp: dict_keys_def init_details_def map_eq_Cons_conv)
  have ok: "dict_get d k = Inr v \<Longrightarrow> v \<noteq> Some []" for k v
    using a by (fastforce simp: all_ok_def field_ok_def)
  have "n \<noteq> Some []" by (rule ok[of "''name''"]) (simp add: d dict_get_def)
  moreover have "e \<noteq> Some []" by (rule ok[of "''email''"]) (simp add: d dict_get_def)
  moreover have "p \<noteq> Some []" by (rule ok[of "''phone''"]) (simp add: d dict_get_def)
  moreover have "c \<noteq> Some []" by (rule ok[of "''college''"]) (simp add: d dict_get_def)
  moreover have "g \<noteq> Some []" by (rule ok[of "''degree''"]) (simp add: d dict_get_def)
  moreover have "q \<noteq> Some []" by (rule ok[of "''cgpa''"]) (simp add: d dict_get_def)
  ultimately show ?thesis using d by blast
qed

section \<open>The claims\<close>

text \<open>
  C6.  Cleaning the raw name \<^verbatim>\<open>Dr. John # Smith123 Resume\<close> yields \<^verbatim>\<open>John Smith\<close>: the special
  character, the prefix, the trailing keyword and the digits are stripped, the words are
  capitalised, and the result passes the check of two words and 4 to 50 characters.
\<close>

theorem clean_name_example:
  "clean_name u (Some (ascii ''Dr. John # Smith123 Resume'')) = Some (ascii ''John Smith'')"
  by code_simp

text \<open>
  C2, as stated, at the spans \<^verbatim>\<open>Su\<close> (0 to 2), \<^verbatim>\<open>jan\<close> (2 to 5) and \<^verbatim>\<open>Kumar\<close> (7 to 12), all
  tagged as a person with score 0.9: the raw name is \<^verbatim>\<open>Su jan Kumar\<close> and not
  \<^verbatim>\<open>Sujan Kumar\<close>, because the function in force joins every gap of at most 5 with a
  space.  The shadowed first definition has the two tiers and yields \<^verbatim>\<open>SujanKumar\<close>, the gap
  of 2 before \<^verbatim>\<open>Kumar\<close> being in its first tier.
\<close>

theorem merge_example:
  "raw_name (sort_key start (collect_persons
     [\<lparr>word = ascii ''Su'', start = 0, end' = 2, score = 0.9, entity_group = ''PER''\<rparr>,
      \<lparr>word = ascii ''jan'', start = 2, end' = 5, score = 0.9, entity_group = ''PER''\<rparr>,
      \<lparr>word = ascii ''Kumar'', start = 7, end' = 12, score = 0.9, entity_group = ''PER''\<rparr>] []))
     = Inr (ascii ''Su jan Kumar'')
   \<and> raw_name_shadowed (sort_key start (collect_persons
     [\<lparr>word = ascii ''Su'', start = 0, end' = 2, score = 0.9, entity_group = ''PER''\<rparr>,
      \<lparr>word = ascii ''jan'', start = 2, end' = 5, score = 0.9, entity_group = ''PER''\<rparr>,
      \<lparr>word = ascii ''Kumar'', start = 7, end' = 12, score = 0.9, entity_group = ''PER''\<rparr>] []))
     = Inr (ascii ''SujanKumar'')"
  by (simp add: raw_name_def raw_name_shadowed_def ascii_def)

text \<open>
  C2, amended.  Merging has one threshold: a person span that starts at most 5 characters
  after the end of the previous one is joined to the candidate with a single space, whatever
  the gap below that, and a gap over 5 starts a new candidate; the raw name is the first
  longest candidate.  The loop of the function computes the candidates of \<open>merge_spec\<close>.
\<close>

theorem raw_name_merge_spec:
  "raw_name (p # ps) = max_len (merge_spec (p # ps))"
proof -
  have "(case combine_loop ps [] (word p) (end' p) of (a, b) \<Rightarrow> a @ [b])
        = candidates_from (candidate ([] @ [p])) p ps"
    using combine_loop_candidates[of ps "[]" "word p" p] by (simp add: candidate_def)
  also have "\<dots> = map candidate (([] @ hd (merge_runs (p # ps))) # tl (merge_runs (p # ps)))"
    by (rule candidates_from_runs)
  also have "\<dots> = merge_spec (p # ps)"
    by (simp add: merge_spec_def merge_runs_nonempty)
  finally show ?thesis
    by (simp add: raw_name_def split: prod.splits)
qed

text \<open>
  C5, as stated, at one entity tagged as a person with score exactly 0.75: it is not
  collected.
\<close>

theorem score_075_not_collected:
  "collect_persons
     [\<lparr>word = ascii ''Asha Rao'', start = 0, end' = 8, score = 0.75, entity_group = ''PER''\<rparr>] []
   = []"
  by simp

text \<open>
  C5, amended.  The entities collected as name candidates are those tagged as a person with
  a score strictly greater than 0.75, in the order the recogniser reports them, and the
  recogniser is run on the first 1000 characters of the text only.
\<close>

theorem collect_persons_strict:
  "collect_persons entities [] =
     map to_person (filter (\<lambda>ent. entity_group ent = ''PER'' \<and> score ent > 0.75) entities)
   \<and> ner_name u pipeline text details = ner_name u pipeline (take 1000 text) details"
  by (simp add: collect_persons_filter ner_name_def ner_name_try_def)

text \<open>
  C9.  \<open>clean_name\<close> returns \<open>None\<close> or a string of at least 4 characters and at least 2
  words.  So the name read by the guard of the first fallback, after the primary strategy,
  is never a string shorter than 4 characters, the guard holds exactly when the name is
  \<open>None\<close>, and the first fallback scans the first five lines exactly then and leaves the
  dictionary alone otherwise.  The same is true of the name read by the guard of the second
  fallback: it searches for the name pattern exactly when the name is \<open>None\<close>.
\<close>

theorem fallback_guard_is_none:
  "(clean_name u arg = None \<or>
      (\<exists>s. clean_name u arg = Some s \<and> 4 \<le> length s \<and> 2 \<le> length (split s)))
   \<and> (\<exists>v. dict_get (after_primary u pipeline text) ''name'' = Inr v
          \<and> (\<nexists>s. v = Some s \<and> length s < 4)
          \<and> name_missing v = (v = None)
          \<and> after_fallback1 u pipeline text =
              Inr (if v = None
                   then line_loop u (take 5 (split_on newline text)) (after_primary u pipeline text)
                   else after_primary u pipeline text))
   \<and> (\<exists>d v. after_fallback1 u pipeline text = Inr d \<and> dict_get d ''name'' = Inr v
          \<and> (\<nexists>s. v = Some s \<and> length s < 4)
          \<and> name_missing v = (v = None)
          \<and> fallback2 u text d =
              (if v = None
               then (case search u MULTILINE name_pattern text of
                       Some name_match \<Rightarrow>
                         and_then (group name_match 1) (\<lambda>g.
                           Inr (dict_set ''name'' (clean_name u g) d))
                     | None \<Rightarrow> Inr d)
               else Inr d))"
proof (intro conjI)
  show "clean_name u arg = None \<or>
      (\<exists>s. clean_name u arg = Some s \<and> 4 \<le> length s \<and> 2 \<le> length (split s))"
    using clean_name_cleaned[of u arg] by (auto simp: cleaned_def)
  from after_primary_name obtain v where
    v: "dict_get (after_primary u pipeline text) ''name'' = Inr v" "cleaned v" by blast
  from v(2) have short: "\<nexists>s. v = Some s \<and> length s < 4" by (auto simp: cleaned_def)
  note guard = name_missing_cleaned[OF v(2)]
  have "after_fallback1 u pipeline text =
          Inr (if v = None
               then line_loop u (take 5 (split_on newline text)) (after_primary u pipeline text)
               else after_primary u pipeline text)"
    using v(1) guard by (simp add: after_fallback1_def fallback1_def and_then_def)
  with v(1) short guard
  show "\<exists>v. dict_get (after_primary u pipeline text) ''name'' = Inr v
          \<and> (\<nexists>s. v = Some s \<and> length s < 4)
          \<and> name_missing v = (v = None)
          \<and> after_fallback1 u pipeline text =
              Inr (if v = None
                   then line_loop u (take 5 (split_on newline text)) (after_primary u pipeline text)
                   else after_primary u pipeline text)"
    by blast
  from after_fallback1_name obtain d w where
    w: "after_fallback1 u pipeline text = Inr d" "dict_get d ''name'' = Inr w" "cleaned w"
    by blast
  from w(3) have short': "\<nexists>s. w = Some s \<and> length s < 4" by (auto simp: cleaned_def)
  note guard' = name_missing_cleaned[OF w(3)]
  have "fallback2 u text d =
          (if w = None
           then (case search u MULTILINE name_pattern text of
                   Some name_match \<Rightarrow>
                     and_then (group name_match 1) (\<lambda>g.
                       Inr (dict_set ''name'' (clean_name u g) d))
                 | None \<Rightarrow> Inr d)
           else Inr d)"
    using w(2) guard' by (simp add: fallback2_def and_then_def)
  with w(1,2) short' guard'
  show "\<exists>d v. after_fallback1 u pipeline text = Inr d \<and> dict_get d ''name'' = Inr v
          \<and> (\<nexists>s. v = Some s \<and> length s < 4)
          \<and> name_missing v = (v = None)
          \<and> fallback2 u text d =
              (if v = None
               then (case search u MULTILINE name_pattern text of
                       Some name_match \<Rightarrow>
                         and_then (group name_match 1) (\<lambda>g.
                           Inr (dict_set ''name'' (clean_name u g) d))
                     | None \<Rightarrow> Inr d)
               else Inr d)"
    by blast
qed

text \<open>
  C1.  For every text, the empty one included, every recogniser (also one that fails) and
  whatever the Unicode tables are, the function returns a dictionary and raises nothing.  A
  sub-extractor that finds nothing leaves its field \<open>None\<close>: the email when the pattern does
  not match, the phone, college, degree and CGPA when none of their patterns matches, and the
  name when the recogniser contributes nothing, no line among the first five qualifies and
  the name pattern does not match.
\<close>

theorem extract_total:
  "\<exists>d. extract_details_huggingface u pipeline text sender_number = Inr d
      \<and> (search u no_flags email_pattern text = None \<longrightarrow> dict_get d ''email'' = Inr None)
      \<and> (no_match u no_flags phone_patterns text \<longrightarrow> dict_get d ''phone'' = Inr None)
      \<and> ((\<forall>d0. ner_name u pipeline text d0 = d0)
           \<and> (\<forall>d0. line_loop u (take 5 (split_on newline text)) d0 = d0)
           \<and> search u MULTILINE name_pattern text = None
           \<longrightarrow> dict_get d ''name'' = Inr None)
      \<and> (no_match u IGNORECASE college_patterns text \<longrightarrow> dict_get d ''college'' = Inr None)
      \<and> (no_match u IGNORECASE degree_patterns text \<longrightarrow> dict_get d ''degree'' = Inr None)
      \<and> (no_match u IGNORECASE cgpa_patterns text \<longrightarrow> dict_get d ''cgpa'' = Inr None)"
proof -
  from extract_summary[of u pipeline _ sender_number] obtain d n c g q where
    r: "extract_details_huggingface u pipeline text sender_number = Inr d" and
    e: "dict_get d ''email'' = Inr (map_option matched (search u no_flags email_pattern text))" and
    p: "dict_get d ''phone'' =
          Inr (map_option (\<lambda>m. filter (\<lambda>c. \<not> separator c) (matched m))
                 (first_match u no_flags phone_patterns text))" and
    n: "dict_get d ''name'' = Inr n"
       "(\<forall>d0. ner_name u pipeline text d0 = d0)
        \<and> (\<forall>d0. line_loop u (take 5 (split_on newline text)) d0 = d0)
        \<and> search u MULTILINE name_pattern text = None \<longrightarrow> n = None" and
    c: "dict_get d ''college'' = Inr c"
       "no_match u IGNORECASE college_patterns text \<longrightarrow> c = None" and
    g: "dict_get d ''degree'' = Inr g"
       "no_match u IGNORECASE degree_patterns text \<longrightarrow> g = None" and
    q: "dict_get d ''cgpa'' = Inr q"
       "no_match u IGNORECASE cgpa_patterns text \<longrightarrow> q = None"
    by blast
  show ?thesis
  proof (intro exI[of _ d] conjI)
    show "extract_details_huggingface u pipeline text sender_number = Inr d" by (rule r)
    show "search u no_flags email_pattern text = None \<longrightarrow> dict_get d ''email'' = Inr None"
      using e by simp
    show "no_match u no_flags phone_patterns text \<longrightarrow> dict_get d ''phone'' = Inr None"
      using p by (simp add: first_match_none)
    show "(\<forall>d0. ner_name u pipeline text d0 = d0)
           \<and> (\<forall>d0. line_loop u (take 5 (split_on newline text)) d0 = d0)
           \<and> search u MULTILINE name_pattern text = None
           \<longrightarrow> dict_get d ''name'' = Inr None"
      using n by blast
    show "no_match u IGNORECASE college_patterns text \<longrightarrow> dict_get d ''college'' = Inr None"
      using c by blast
    show "no_match u IGNORECASE degree_patterns text \<longrightarrow> dict_get d ''degree'' = Inr None"
      using g by blast
    show "no_match u IGNORECASE cgpa_patterns text \<longrightarrow> dict_get d ''cgpa'' = Inr None"
      using q by blast
  qed
qed

text \<open>C1 at the empty text with a recogniser that cannot be built: every field is \<open>None\<close>.\<close>

theorem extract_total_witness:
  "\<exists>d. extract_details_huggingface plain (Inl (NerError ''unavailable'')) [] None = Inr d
      \<and> dict_get d ''email'' = Inr None \<and> dict_get d ''phone'' = Inr None
      \<and> dict_get d ''name'' = Inr None \<and> dict_get d ''college'' = Inr None
      \<and> dict_get d ''degree'' = Inr None \<and> dict_get d ''cgpa'' = Inr None"
proof -
  have h1: "search plain no_flags email_pattern [] = None" by code_simp
  have h2: "no_match plain no_flags phone_patterns []" by code_simp
  have h3: "\<forall>d0. ner_name plain (Inl (NerError ''unavailable'')) [] d0 = d0"
    by (simp add: ner_name_def ner_name_try_def and_then_def)
  have "split_on newline [] = [[]]" by (simp add: split_on_def)
  moreover have "strip [] = []" by (simp add: strip_def)
  moreover have "split [] = []" by (simp add: split_def)
  moreover have "\<not> list_ex (\<lambda>keyword. contains (lower plain []) (ascii keyword)) name_stopwords"
    by code_simp
  ultimately have h4: "\<forall>d0. line_loop plain (take 5 (split_on newline [])) d0 = d0"
    by simp
  have h5: "search plain MULTILINE name_pattern [] = None" by code_simp
  have h6: "no_match plain IGNORECASE college_patterns []" by code_simp
  have h7: "no_match plain IGNORECASE degree_patterns []" by code_simp
  have h8: "no_match plain IGNORECASE cgpa_patterns []" by code_simp
  from extract_total[of plain "Inl (NerError ''unavailable'')" "[]" None] h1 h2 h3 h4 h5 h6 h7 h8
  show ?thesis by blast
qed

text \<open>
  C3.  For every input the college field of the result is the first offer of the cascade
  whose cleaned text has between 5 and 150 characters: an offer outside that range is passed
  over, and the field is \<open>None\<close> when no offer is in range.  So a college that is present
  has between 5 and 150 characters.
\<close>

theorem college_in_bounds:
  "\<exists>d. extract_details_huggingface u pipeline text sender_number = Inr d
      \<and> dict_get d ''college'' = Inr (find in_bounds (college_offers u college_patterns text))
      \<and> (dict_get d ''college'' = Inr None
          \<or> (\<exists>s. dict_get d ''college'' = Inr (Some s) \<and> 5 \<le> length s \<and> length s \<le> 150))"
proof -
  from extract_college obtain d where
    d: "extract_details_huggingface u pipeline text sender_number = Inr d"
       "dict_get d ''college'' = Inr (find in_bounds (college_offers u college_patterns text))"
    by blast
  with find_in_bounds[of "college_offers u college_patterns text"] show ?thesis by auto
qed

text \<open>
  C8.  For every input the result has exactly the six keys \<^verbatim>\<open>name\<close>, \<^verbatim>\<open>email\<close>, \<^verbatim>\<open>phone\<close>,
  \<^verbatim>\<open>college\<close>, \<^verbatim>\<open>degree\<close> and \<^verbatim>\<open>cgpa\<close>, so no \<^verbatim>\<open>status\<close>, and no value is the empty
  string: each is \<open>None\<close> or a string that is not empty.
\<close>

theorem fields_none_or_nonempty:
  "\<exists>n e p c g q.
     extract_details_huggingface u pipeline text sender_number =
       Inr [(''name'', n), (''email'', e), (''phone'', p), (''college'', c), (''degree'', g),
            (''cgpa'', q)]
     \<and> n \<noteq> Some [] \<and> e \<noteq> Some [] \<and> p \<noteq> Some [] \<and> c \<noteq> Some [] \<and> g \<noteq> Some []
     \<and> q \<noteq> Some []"
proof -
  from extract_summary[of u pipeline _ sender_number] obtain d where
    d: "extract_details_huggingface u pipeline text sender_number = Inr d"
       "dict_keys d = dict_keys init_details" "all_ok d"
    by blast
  from six_fields[OF d(2,3)] d(1) show ?thesis by auto
qed

text \<open>
  C10.  The first group of the fifth college pattern is the abbreviation alone, 3 or 4
  characters, and cleaning does not lengthen it, so it is always below the minimum of 5 and
  the pattern never sets the field: for every input the cascade with the five patterns
  equals the cascade with the first four.
\<close>

theorem fifth_pattern_dead:
  "college_loop u college_patterns text details =
     college_loop u [college_pattern1, college_pattern2, college_pattern3, college_pattern4]
       text details
   \<and> college_loop u [college_pattern5] text details = Inr details
   \<and> (\<forall>m. search u IGNORECASE college_pattern5 text = Some m \<longrightarrow>
          (\<exists>w. group m 1 = Inr (Some w) \<and> 3 \<le> length w \<and> length w \<le> 4
               \<and> length (clean_college u (strip w)) < 5))"
proof (intro conjI allI impI)
  show "college_loop u college_patterns text details =
     college_loop u [college_pattern1, college_pattern2, college_pattern3, college_pattern4]
       text details"
    using college_loop_snoc5[of u
        "[college_pattern1, college_pattern2, college_pattern3, college_pattern4]" _ details]
    by (simp add: college_patterns_def)
  show "college_loop u [college_pattern5] text details = Inr details"
    by (rule college_loop_pattern5)
  fix m
  assume m: "search u IGNORECASE college_pattern5 text = Some m"
  from pattern5_group[OF m] obtain w where
    w: "group m 1 = Inr (Some w)" "3 \<le> length w" "length w \<le> 4" by blast
  have "length (clean_college u (strip w)) \<le> length (strip w)" by (rule clean_college_length)
  also have "\<dots> \<le> length w" by (rule strip_length)
  finally have "length (clean_college u (strip w)) < 5" using w(3) by simp
  with w show "\<exists>w. group m 1 = Inr (Some w) \<and> 3 \<le> length w \<and> length w \<le> 4
               \<and> length (clean_college u (strip w)) < 5"
    by blast
qed

text \<open>C10 at the text \<^verbatim>\<open>Studied at MIT Pune\<close>, where the fifth pattern matches.\<close>

theorem fifth_pattern_dead_witness:
  "search plain IGNORECASE college_pattern5 (ascii ''Studied at MIT Pune'')
     = Some \<lparr>matched = ascii ''MIT Pune'', captures = [(1, ascii ''MIT'')], ngroups = 1\<rparr>
   \<and> (\<exists>w. group \<lparr>matched = ascii ''MIT Pune'', captures = [(1, ascii ''MIT'')], ngroups = 1\<rparr> 1
              = Inr (Some w)
          \<and> 3 \<le> length w \<and> length w \<le> 4 \<and> length (clean_college plain (strip w)) < 5)"
proof -
  have h: "search plain IGNORECASE college_pattern5 (ascii ''Studied at MIT Pune'')
     = Some \<lparr>matched = ascii ''MIT Pune'', captures = [(1, ascii ''MIT'')], ngroups = 1\<rparr>"
    by code_simp
  with fifth_pattern_dead[of plain "ascii ''Studied at MIT Pune''" init_details]
  show ?thesis by blast
qed

text \<open>
  C4, as stated, at a text that contains \<^verbatim>\<open>+91 782-907-9853\<close> after another number: the first
  pattern matches the earlier number, and the phone is \<^verbatim>\<open>+14155550123\<close>.  The text is ASCII,
  so the result is the same whatever the tables are.
\<close>

theorem phone_earlier_number:
  "extract_details_huggingface plain (Inl (NerError ''unavailable''))
     (ascii ''+1 415-555-0123, +91 782-907-9853'') None
   = Inr [(''name'', None), (''email'', None), (''phone'', Some (ascii ''+14155550123'')),
          (''college'', None), (''degree'', None), (''cgpa'', None)]"
  by code_simp

text \<open>
  C4, amended.  The phone is taken from the match of the first of the three patterns, in
  their order, that matches somewhere in the text; the hyphens, dots, parentheses and
  whitespace of the matched text are removed, and the later patterns are not tried.  So when
  the match of the first pattern is \<^verbatim>\<open>+91 782-907-9853\<close>, the phone is \<^verbatim>\<open>+917829079853\<close>,
  with its plus sign.
\<close>

theorem phone_first_pattern:
  "\<exists>d. extract_details_huggingface u pipeline text sender_number = Inr d
      \<and> dict_get d ''phone'' =
          Inr (map_option (\<lambda>m. filter (\<lambda>c. \<not> separator c) (matched m))
                 (first_match u no_flags phone_patterns text))
      \<and> (\<forall>m. search u no_flags (hd phone_patterns) text = Some m
               \<and> matched m = ascii ''+91 782-907-9853''
           \<longrightarrow> dict_get d ''phone'' = Inr (Some (ascii ''+917829079853'')))"
proof -
  from extract_summary[of u pipeline _ sender_number] obtain d where
    r: "extract_details_huggingface u pipeline text sender_number = Inr d" and
    p: "dict_get d ''phone'' =
          Inr (map_option (\<lambda>m. filter (\<lambda>c. \<not> separator c) (matched m))
                 (first_match u no_flags phone_patterns text))"
    by blast
  have f: "filter (\<lambda>c. \<not> separator c) (ascii ''+91 782-907-9853'') = ascii ''+917829079853''"
    by code_simp
  have "dict_get d ''phone'' = Inr (Some (ascii ''+917829079853''))"
    if "search u no_flags (hd phone_patterns) text = Some m
        \<and> matched m = ascii ''+91 782-907-9853''" for m
  proof -
    from that have "first_match u no_flags phone_patterns text = Some m"
      by (simp add: phone_patterns_def)
    with p that f show ?thesis by simp
  qed
  with r p show ?thesis by blast
qed

text \<open>C4, amended, at the text \<^verbatim>\<open>Mobile: +91 782-907-9853\<close>.\<close>

theorem phone_first_pattern_witness:
  "search plain no_flags (hd phone_patterns) (ascii ''Mobile: +91 782-907-9853'')
     = Some \<lparr>matched = ascii ''+91 782-907-9853'', captures = [], ngroups = 0\<rparr>
   \<and> (\<exists>d. extract_details_huggingface plain (Inl (NerError ''unavailable''))
              (ascii ''Mobile: +91 782-907-9853'') None = Inr d
          \<and> dict_get d ''phone'' = Inr (Some (ascii ''+917829079853'')))"
proof -
  have h: "search plain no_flags (hd phone_patterns) (ascii ''Mobile: +91 782-907-9853'')
     = Some \<lparr>matched = ascii ''+91 782-907-9853'', captures = [], ngroups = 0\<rparr>"
    by code_simp
  from phone_first_pattern[of plain "Inl (NerError ''unavailable'')"
      "ascii ''Mobile: +91 782-907-9853''" None] obtain d where
    d: "extract_details_huggingface plain (Inl (NerError ''unavailable''))
          (ascii ''Mobile: +91 782-907-9853'') None = Inr d"
       "\<forall>m. search plain no_flags (hd phone_patterns) (ascii ''Mobile: +91 782-907-9853'') = Some m
               \<and> matched m = ascii ''+91 782-907-9853''
           \<longrightarrow> dict_get d ''phone'' = Inr (Some (ascii ''+917829079853''))"
    by blast
  from d(2) h have "dict_get d ''phone'' = Inr (Some (ascii ''+917829079853''))" by simp
  with h d(1) show ?thesis by blast
qed

text \<open>
  C7.  When the recogniser cannot be built, or raises when it is run, the failure stays in
  the name step: the step leaves the dictionary as it was, so the name is still \<open>None\<close>
  after it; the first fallback then scans the first five lines, and the second fallback
  searches for the name pattern if the name is still \<open>None\<close>; the function returns a
  dictionary, and it is the dictionary that a recogniser finding no entity would give.
\<close>

theorem ner_failure_recovered:
  assumes "pipeline = Inl e \<or> (\<exists>ner. pipeline = Inr ner \<and> ner (take 1000 text) = Inl e)"
  shows "ner_name u pipeline text details = details
       \<and> dict_get (after_primary u pipeline text) ''name'' = Inr None
       \<and> after_fallback1 u pipeline text =
           Inr (line_loop u (take 5 (split_on newline text)) (after_primary u pipeline text))
       \<and> (\<exists>d4. after_fallback1 u pipeline text = Inr d4
             \<and> (dict_get d4 ''name'' = Inr None \<longrightarrow>
                  fallback2 u text d4 =
                    (case search u MULTILINE name_pattern text of
                       Some name_match \<Rightarrow>
                         and_then (group name_match 1) (\<lambda>g.
                           Inr (dict_set ''name'' (clean_name u g) d4))
                     | None \<Rightarrow> Inr d4)))
       \<and> (\<exists>d. extract_details_huggingface u pipeline text sender_number = Inr d)
       \<and> extract_details_huggingface u pipeline text sender_number =
           extract_details_huggingface u (Inr (\<lambda>t. Inr [])) text sender_number"
proof -
  have id: "ner_name u pipeline text d = d" for d
    using assms by (auto simp: ner_name_def ner_name_try_def and_then_def)
  have id0: "ner_name u (Inr (\<lambda>t. Inr [])) text d = d" for d
    by (simp add: ner_name_def ner_name_try_def and_then_def)
  have n: "dict_get (after_primary u pipeline text) ''name'' = Inr None"
    by (simp add: after_primary_def id stage2_name)
  have f1: "after_fallback1 u pipeline text =
           Inr (line_loop u (take 5 (split_on newline text)) (after_primary u pipeline text))"
    using n by (simp add: after_fallback1_def fallback1_def and_then_def name_missing_def)
  have f2: "dict_get d4 ''name'' = Inr None \<longrightarrow>
                  fallback2 u text d4 =
                    (case search u MULTILINE name_pattern text of
                       Some name_match \<Rightarrow>
                         and_then (group name_match 1) (\<lambda>g.
                           Inr (dict_set ''name'' (clean_name u g) d4))
                     | None \<Rightarrow> Inr d4)" for d4
    by (simp add: fallback2_def and_then_def name_missing_def)
  from extract_summary[of u pipeline _ sender_number]
  have ex: "\<exists>d. extract_details_huggingface u pipeline text sender_number = Inr d" by blast
  have eq: "extract_details_huggingface u pipeline text sender_number =
           extract_details_huggingface u (Inr (\<lambda>t. Inr [])) text sender_number"
    by (simp add: extract_details_huggingface_def id id0)
  from id n f1 f2 ex eq show ?thesis by blast
qed

text \<open>C7 at a recogniser that cannot be built and the text \<^verbatim>\<open>Rahul Sharma\<close>.\<close>

theorem ner_failure_recovered_witness:
  "ner_name plain (Inl (NerError ''unavailable'')) (ascii ''Rahul Sharma'') init_details
     = init_details
   \<and> (\<exists>d. extract_details_huggingface plain (Inl (NerError ''unavailable''))
              (ascii ''Rahul Sharma'') None = Inr d)
   \<and> extract_details_huggingface plain (Inl (NerError ''unavailable''))
        (ascii ''Rahul Sharma'') None
      = extract_details_huggingface plain (Inr (\<lambda>t. Inr [])) (ascii ''Rahul Sharma'') None"
proof -
  have h: "(Inl (NerError ''unavailable'') :: error + ner) = Inl (NerError ''unavailable'')
           \<or> (\<exists>ner. (Inl (NerError ''unavailable'') :: error + ner) = Inr ner
                     \<and> ner (take 1000 (ascii ''Rahul Sharma'')) = Inl (NerError ''unavailable''))"
    by simp
  from ner_failure_recovered[OF h, of plain init_details None] show ?thesis by blast
qed

end
